theory Spec2Isabelle
  imports Main "HOL-Library.Char_ord" "HOL-Library.List_Lexorder" "HOL-Library.Sublist" "HOL-Library.Multiset"
begin

section \<open>Time utilities (src/app.js)\<close>

text \<open>
  An instant is a JavaScript \<open>Date\<close>. Every instant the engine creates comes from
  \<open>dtFromHM\<close> (today at HH:MM, seconds and milliseconds zero) or from adding whole
  minutes to one, so an instant is modelled as the number of whole minutes since local
  midnight of the current day; a calendar day has 1440 minutes (no daylight-saving jump).
\<close>

type_synonym instant = int

definition getHours :: "instant \<Rightarrow> int" where
  "getHours t = (t mod 1440) div 60"

definition getMinutes :: "instant \<Rightarrow> int" where
  "getMinutes t = (t mod 1440) mod 60"

definition addMins :: "instant \<Rightarrow> int \<Rightarrow> instant" where
  "addMins d mins = d + mins"

definition diffMins :: "instant \<Rightarrow> instant \<Rightarrow> int" where
  "diffMins a b = a - b"

definition roundUp5 :: "int \<Rightarrow> int" where
  "roundUp5 x = (- ((- x) div 5)) * 5"

definition is_digit :: "char \<Rightarrow> bool" where
  "is_digit c \<longleftrightarrow> c \<in> set ''0123456789''"

definition digit_val :: "char \<Rightarrow> int" where
  "digit_val c = int (of_char c) - 48"

definition parseInt :: "string \<Rightarrow> int" where
  "parseInt ds = foldl (\<lambda>a c. 10 * a + digit_val c) 0 ds"

text \<open>The regular expression \<open>^(\d{1,2}):(\d{1,2})$\<close> of \<open>dtFromHM\<close>.\<close>

definition matchHM :: "string \<Rightarrow> (string \<times> string) option" where
  "matchHM hm =
     (let a = takeWhile (\<lambda>c. c \<noteq> CHR '':'') hm;
          r = dropWhile (\<lambda>c. c \<noteq> CHR '':'') hm
      in case r of
           [] \<Rightarrow> None
         | _ # b \<Rightarrow>
             if (length a = 1 \<or> length a = 2) \<and> list_all is_digit a \<and>
                (length b = 1 \<or> length b = 2) \<and> list_all is_digit b
             then Some (a, b) else None)"

definition dtFromHM :: "string \<Rightarrow> instant" where
  "dtFromHM hm =
     (case matchHM hm of
        None \<Rightarrow> 0
      | Some (a, b) \<Rightarrow>
          60 * min 23 (max 0 (parseInt a)) + min 59 (max 0 (parseInt b)))"

fun digits :: "nat \<Rightarrow> string" where
  "digits n =
     (if n < 10 then [''0123456789'' ! n]
      else digits (n div 10) @ [''0123456789'' ! (n mod 10)])"

declare digits.simps [simp del]

definition show_int :: "int \<Rightarrow> string" where
  "show_int i = (if i < 0 then CHR ''-'' # digits (nat (- i)) else digits (nat i))"

section \<open>Data model\<close>

datatype error = TypeError

record auditorium =
  a_id :: int
  a_name :: string
  a_format :: string
  a_seats :: int

record film =
  f_id :: string
  f_title :: string
  f_rating :: string
  f_runtime :: int
  f_trailer :: int
  f_clean :: int
  f_format :: string

record row =
  r_rowId :: string
  r_bookingId :: "string option"
  r_slot :: string
  r_filmId :: "string option"
  r_audId :: "int option"
  r_primeHM :: "string option"

datatype source = Prime | Manual | Override

record show_rec =
  sid :: string
  rowId :: string
  offset :: "int option"
  audId :: "int option"
  audName :: string
  filmId :: "string option"
  filmTitle :: string
  start :: instant
  endT :: instant
  runtime :: int
  trailer :: int
  clean :: int
  cycle :: int
  source :: source

record override =
  ov_start :: "instant option"
  ov_audId :: "int option"
  ov_filmId :: "string option"

datatype undo_entry =
    EditE string instant
  | HideE string bool
  | ManualE show_rec
  | MoveAudE string "int option"
  | EditFilmE string "string option"

record snapshot =
  sn_primeRows :: "row list"
  sn_extraRows :: "row list"
  sn_manualShows :: "show_rec list"
  sn_overrides :: "string \<rightharpoonup> override"
  sn_hiddenShows :: "string \<rightharpoonup> bool"
  sn_undoStack :: "undo_entry list"

text \<open>
  The global \<open>state\<close> object. \<open>scheduleByDate\<close> is kept as an association list
  in insertion order, since \<open>pruneOldSchedules\<close> enumerates its keys.
\<close>

record state =
  auds :: "auditorium list"
  films :: "film list"
  primeRows :: "row list"
  extraRows :: "row list"
  manualShows :: "show_rec list"
  overrides :: "string \<rightharpoonup> override"
  hiddenShows :: "string \<rightharpoonup> bool"
  scheduleByDate :: "(string \<times> snapshot) list"
  currentDate :: "string option"
  firstShowHM :: string
  lastShowHM :: string
  undoStack :: "undo_entry list"

text \<open>JavaScript truthiness of an optional number, string or boolean.\<close>

definition truthyI :: "int option \<Rightarrow> bool" where
  "truthyI x = (case x of None \<Rightarrow> False | Some v \<Rightarrow> v \<noteq> 0)"

definition truthyS :: "string option \<Rightarrow> bool" where
  "truthyS x = (case x of None \<Rightarrow> False | Some v \<Rightarrow> v \<noteq> [])"

definition truthyB :: "bool option \<Rightarrow> bool" where
  "truthyB x = (case x of None \<Rightarrow> False | Some v \<Rightarrow> v)"

text \<open>Template-literal rendering of an optional number or string (\<open>null\<close> prints as "null").\<close>

definition strI :: "int option \<Rightarrow> string" where
  "strI x = (case x of None \<Rightarrow> ''null'' | Some v \<Rightarrow> show_int v)"

definition strS :: "string option \<Rightarrow> string" where
  "strS x = (case x of None \<Rightarrow> ''null'' | Some v \<Rightarrow> v)"

section \<open>Catalog lookups and film durations\<close>

definition filmById :: "state \<Rightarrow> string option \<Rightarrow> film option" where
  "filmById s i = (case i of None \<Rightarrow> None | Some k \<Rightarrow> find (\<lambda>f. f_id f = k) (films s))"

definition audById :: "state \<Rightarrow> int option \<Rightarrow> auditorium option" where
  "audById s i = (case i of None \<Rightarrow> None | Some k \<Rightarrow> find (\<lambda>a. a_id a = k) (auds s))"

definition cycleMinutes :: "film option \<Rightarrow> int" where
  "cycleMinutes fo =
     (case fo of None \<Rightarrow> 0
      | Some f \<Rightarrow> roundUp5 (f_runtime f + f_trailer f + f_clean f))"

text \<open>\<open>endOfMovie\<close> reads \<open>film.runtime\<close> without a null check: a null film raises.\<close>

definition endOfMovie :: "instant \<Rightarrow> film option \<Rightarrow> error + instant" where
  "endOfMovie st fo =
     (case fo of None \<Rightarrow> Inl TypeError
      | Some f \<Rightarrow> Inr (addMins st (f_runtime f + f_trailer f)))"

definition displayTitle :: "film \<Rightarrow> string" where
  "displayTitle f = f_title f @ (if f_format f \<noteq> [] then '' '' @ f_format f else [])"

section \<open>Cycle generator: buildRowShowtimes\<close>

definition makeRec :: "row \<Rightarrow> int \<Rightarrow> instant \<Rightarrow> film \<Rightarrow> auditorium \<Rightarrow> show_rec" where
  "makeRec rw off st f a =
     \<lparr> sid = r_rowId rw @ '':'' @ show_int off,
       rowId = r_rowId rw,
       offset = Some off,
       audId = Some (a_id a),
       audName = a_name a,
       filmId = Some (f_id f),
       filmTitle = displayTitle f,
       start = st,
       endT = addMins st (f_runtime f + f_trailer f),
       runtime = f_runtime f,
       trailer = f_trailer f,
       clean = f_clean f,
       cycle = cycleMinutes (Some f),
       source = Prime \<rparr>"

text \<open>The loop \<open>for (let i = preCount; i >= 1; i--)\<close>.\<close>

function preLoop :: "row \<Rightarrow> film \<Rightarrow> auditorium \<Rightarrow> instant \<Rightarrow> instant \<Rightarrow> int \<Rightarrow> int \<Rightarrow> show_rec list" where
  "preLoop rw f a wfirst prime c i =
     (if 1 \<le> i then
        (let st = addMins prime (- i * c)
         in if st < wfirst then preLoop rw f a wfirst prime c (i - 1)
            else makeRec rw (- i) st f a # preLoop rw f a wfirst prime c (i - 1))
      else [])"
  by pat_completeness auto
termination
  by (relation "measure (\<lambda>(rw, f, a, wfirst, prime, c, i). nat i)") auto

declare preLoop.simps [simp del]

text \<open>The loop \<open>for (let i = 1; i <= postCount; i++)\<close>.\<close>

function postLoop :: "row \<Rightarrow> film \<Rightarrow> auditorium \<Rightarrow> instant \<Rightarrow> instant \<Rightarrow> int \<Rightarrow> int \<Rightarrow> int \<Rightarrow> show_rec list" where
  "postLoop rw f a wlast prime c postCount i =
     (if i \<le> postCount then
        (let st = addMins prime (i * c)
         in if wlast < st then postLoop rw f a wlast prime c postCount (i + 1)
            else makeRec rw i st f a # postLoop rw f a wlast prime c postCount (i + 1))
      else [])"
  by pat_completeness auto
termination
  by (relation "measure (\<lambda>(rw, f, a, wlast, prime, c, postCount, i). nat (postCount + 1 - i))") auto

declare postLoop.simps [simp del]

text \<open>The operating window: \<open>last\<close> is moved to the next day when its hour is before 5.\<close>

definition windowFirst :: "state \<Rightarrow> instant" where
  "windowFirst s = dtFromHM (firstShowHM s)"

definition windowLast :: "state \<Rightarrow> instant" where
  "windowLast s =
     (let wlast = dtFromHM (lastShowHM s)
      in if getHours wlast < 5 then wlast + 1440 else wlast)"

definition buildRowShowtimes :: "state \<Rightarrow> row \<Rightarrow> show_rec list" where
  "buildRowShowtimes s rw =
     (case (filmById s (r_filmId rw), audById s (r_audId rw)) of
        (Some f, Some a) \<Rightarrow>
          if \<not> truthyS (r_primeHM rw) then []
          else
            (let wfirst = windowFirst s;
                 wlast = windowLast s;
                 prime = dtFromHM (the (r_primeHM rw));
                 c = cycleMinutes (Some f)
             in if c \<le> 0 then []
                else
                  (let preCount = diffMins prime wfirst div c;
                       postCount = diffMins wlast prime div c
                   in preLoop rw f a wfirst prime c preCount
                      @ [makeRec rw 0 prime f a]
                      @ postLoop rw f a wlast prime c postCount 1))
      | _ \<Rightarrow> [])"

section \<open>Override and manual layer: getAllShows\<close>

text \<open>\<open>Array.prototype.map\<close> with a callback that may throw: the first throw aborts.\<close>

fun mapE :: "('a \<Rightarrow> error + 'b) \<Rightarrow> 'a list \<Rightarrow> error + 'b list" where
  "mapE g [] = Inr []"
| "mapE g (x # xs) =
     (case g x of
        Inl e \<Rightarrow> Inl e
      | Inr y \<Rightarrow> (case mapE g xs of Inl e \<Rightarrow> Inl e | Inr ys \<Rightarrow> Inr (y # ys)))"

text \<open>The synthetic row id \<open>`OV-${destAud}-${destFilm}`\<close>.\<close>

definition dynRowId :: "int option \<Rightarrow> string option \<Rightarrow> string" where
  "dynRowId destAud destFilm = ''OV-'' @ strI destAud @ ''-'' @ strS destFilm"

text \<open>Step 1 of the callback: the start override, whose end needs the effective film.\<close>

definition applyStart :: "state \<Rightarrow> override \<Rightarrow> show_rec \<Rightarrow> error + show_rec" where
  "applyStart s ov r =
     (case ov_start ov of
        None \<Rightarrow> Inr r
      | Some st \<Rightarrow>
          (case endOfMovie st (filmById s (if truthyS (ov_filmId ov) then ov_filmId ov else filmId r)) of
             Inl e \<Rightarrow> Inl e
           | Inr en \<Rightarrow> Inr (r\<lparr>start := st, endT := en\<rparr>)))"

text \<open>Step 2: the auditorium override.\<close>

definition applyAud :: "state \<Rightarrow> override \<Rightarrow> show_rec \<Rightarrow> show_rec" where
  "applyAud s ov u =
     (if truthyI (ov_audId ov)
      then u\<lparr>audId := ov_audId ov,
             audName := (case audById s (ov_audId ov) of Some a \<Rightarrow> a_name a | None \<Rightarrow> audName u)\<rparr>
      else u)"

text \<open>Step 3: the film override, applied only when the film resolves.\<close>

definition applyFilm :: "state \<Rightarrow> override \<Rightarrow> show_rec \<Rightarrow> show_rec \<Rightarrow> show_rec" where
  "applyFilm s ov r u =
     (if truthyS (ov_filmId ov) \<and> ov_filmId ov \<noteq> filmId r
      then (case filmById s (ov_filmId ov) of
              Some f \<Rightarrow>
                u\<lparr>filmId := Some (f_id f),
                  filmTitle := displayTitle f,
                  runtime := f_runtime f,
                  trailer := f_trailer f,
                  clean := f_clean f,
                  cycle := cycleMinutes (Some f),
                  endT := addMins (start u) (f_runtime f + f_trailer f)\<rparr>
            | None \<Rightarrow> u)
      else u)"

text \<open>Step 4: dynamic row grouping.\<close>

definition regroup :: "override \<Rightarrow> show_rec \<Rightarrow> show_rec \<Rightarrow> show_rec" where
  "regroup ov r u =
     (if (truthyI (ov_audId ov) \<and> ov_audId ov \<noteq> audId r)
         \<or> (truthyS (ov_filmId ov) \<and> ov_filmId ov \<noteq> filmId r)
      then (let destAud = (if truthyI (audId u) then audId u else audId r);
                destFilm = (if truthyS (filmId u) then filmId u else filmId r)
            in u\<lparr>rowId := dynRowId destAud destFilm, source := Override\<rparr>)
      else u)"

definition applyOverride :: "state \<Rightarrow> show_rec \<Rightarrow> error + show_rec" where
  "applyOverride s r =
     (case overrides s (sid r) of
        None \<Rightarrow> Inr r
      | Some ov \<Rightarrow>
          (case applyStart s ov r of
             Inl e \<Rightarrow> Inl e
           | Inr u \<Rightarrow> Inr (regroup ov r (applyFilm s ov r (applyAud s ov u)))))"

text \<open>The deduplication key \<open>`${startTime}_${rec.audId}_${rec.filmId}`\<close>; the instant is
  printed as its minute count, an injective relabelling of the millisecond timestamp.\<close>

definition showKey :: "show_rec \<Rightarrow> string" where
  "showKey r = show_int (start r) @ ''_'' @ strI (audId r) @ ''_'' @ strS (filmId r)"

fun dedup :: "string set \<Rightarrow> show_rec list \<Rightarrow> show_rec list" where
  "dedup seen [] = []"
| "dedup seen (r # rs) =
     (if showKey r \<in> seen then dedup seen rs
      else r # dedup (insert (showKey r) seen) rs)"

definition rawShows :: "state \<Rightarrow> show_rec list" where
  "rawShows s =
     concat (map (buildRowShowtimes s) (primeRows s @ extraRows s))
     @ map (\<lambda>ms. ms\<lparr>source := Manual\<rparr>) (manualShows s)"

text \<open>\<open>Array.prototype.sort\<close> is stable; so is \<open>sort_key\<close>.\<close>

definition mappedShows :: "state \<Rightarrow> error + show_rec list" where
  "mappedShows s =
     mapE (applyOverride s) (filter (\<lambda>r. \<not> truthyB (hiddenShows s (sid r))) (rawShows s))"

definition getAllShows :: "state \<Rightarrow> error + show_rec list" where
  "getAllShows s =
     (case mappedShows s of
        Inl e \<Rightarrow> Inl e
      | Inr mapped \<Rightarrow> Inr (dedup {} (sort_key start mapped)))"

text \<open>The triple that deduplication is about.\<close>

definition triple :: "show_rec \<Rightarrow> instant \<times> int option \<times> string option" where
  "triple r = (start r, audId r, filmId r)"


section \<open>Schedule snapshot store: save and retention\<close>

text \<open>Assignment \<open>obj[k] = v\<close> on the association list: in place, or appended.\<close>

fun setKey :: "string \<Rightarrow> 'v \<Rightarrow> (string \<times> 'v) list \<Rightarrow> (string \<times> 'v) list" where
  "setKey k v [] = [(k, v)]"
| "setKey k v ((k', v') # al) = (if k' = k then (k, v) # al else (k', v') # setKey k v al)"

definition snapshotOf :: "state \<Rightarrow> snapshot" where
  "snapshotOf s =
     \<lparr> sn_primeRows = primeRows s, sn_extraRows = extraRows s,
       sn_manualShows = manualShows s, sn_overrides = overrides s,
       sn_hiddenShows = hiddenShows s, sn_undoStack = undoStack s \<rparr>"

text \<open>\<open>pruneOldSchedules\<close>: beyond 14 stored dates the lexicographically smallest
  keys are deleted.\<close>

definition pruneOldSchedules :: "(string \<times> snapshot) list \<Rightarrow> (string \<times> snapshot) list" where
  "pruneOldSchedules al =
     (let keys = map fst al; retention = 14
      in if length keys \<le> retention then al
         else (let toDelete = take (length keys - retention) (sort keys)
               in filter (\<lambda>kv. fst kv \<notin> set toDelete) al))"

text \<open>\<open>saveCurrentSchedule\<close> and the schedule part of \<open>save\<close> do the same: store the
  top-level schedule under the current date, then prune. Writing to localStorage and
  dispatching the update event leave the state as it is.\<close>

definition saveCurrentSchedule :: "state \<Rightarrow> state" where
  "saveCurrentSchedule s =
     (if truthyS (currentDate s)
      then s\<lparr>scheduleByDate :=
             pruneOldSchedules (setKey (the (currentDate s)) (snapshotOf s) (scheduleByDate s))\<rparr>
      else s)"

definition save :: "state \<Rightarrow> state" where
  "save s = saveCurrentSchedule s"

section \<open>Mutation entry points\<close>

text \<open>
  A mutator either returns with a new state (\<open>Inr\<close>) or is aborted by an exception
  raised inside \<open>getAllShows\<close>; \<open>Inl (e, s')\<close> records the exception and the state the
  aborted call leaves behind.
\<close>

type_synonym outcome = "error \<times> state + state"

definition emptyOverride :: override where
  "emptyOverride = \<lparr>ov_start = None, ov_audId = None, ov_filmId = None\<rparr>"

definition findShow :: "string \<Rightarrow> show_rec list \<Rightarrow> show_rec option" where
  "findShow showId shows = find (\<lambda>r. sid r = showId) shows"

text \<open>Updating the element at \<open>findIndex\<close>, and \<open>splice(idx, 1)\<close>.\<close>

fun updFirst :: "('a \<Rightarrow> bool) \<Rightarrow> ('a \<Rightarrow> 'a) \<Rightarrow> 'a list \<Rightarrow> 'a list" where
  "updFirst P g [] = []"
| "updFirst P g (x # xs) = (if P x then g x # xs else x # updFirst P g xs)"

fun removeFirst :: "('a \<Rightarrow> bool) \<Rightarrow> 'a list \<Rightarrow> 'a list" where
  "removeFirst P [] = []"
| "removeFirst P (x # xs) = (if P x then xs else x # removeFirst P xs)"

text \<open>\<open>delete ov.field\<close> followed by dropping the override when no key is left.\<close>

definition storeOrDrop :: "(string \<rightharpoonup> override) \<Rightarrow> string \<Rightarrow> override \<Rightarrow> (string \<rightharpoonup> override)" where
  "storeOrDrop ovs k ov =
     (if ov_start ov = None \<and> ov_audId ov = None \<and> ov_filmId ov = None
      then ovs(k := None) else ovs(k \<mapsto> ov))"

definition pushUndo :: "undo_entry \<Rightarrow> state \<Rightarrow> state" where
  "pushUndo e s = s\<lparr>undoStack := undoStack s @ [e]\<rparr>"

definition updateShowStart :: "state \<Rightarrow> string \<Rightarrow> string \<Rightarrow> outcome" where
  "updateShowStart s showId hm =
     (case getAllShows s of
        Inl e \<Rightarrow> Inl (e, s)
      | Inr shows \<Rightarrow>
          (case findShow showId shows of
             None \<Rightarrow> Inr s
           | Some rec \<Rightarrow>
               if hm = [] then
                 Inr (save ((pushUndo (HideE showId (truthyB (hiddenShows s showId))) s)
                        \<lparr>hiddenShows := (hiddenShows s)(showId \<mapsto> True)\<rparr>))
               else
                 (let prevStart =
                        (case overrides s showId of
                           None \<Rightarrow> start rec
                         | Some ov \<Rightarrow> (case ov_start ov of None \<Rightarrow> start rec | Some st \<Rightarrow> st));
                      newStart = dtFromHM hm;
                      ov' =
                        (case overrides s showId of
                           None \<Rightarrow> emptyOverride\<lparr>ov_start := Some newStart\<rparr>
                         | Some ov \<Rightarrow> ov\<lparr>ov_start := Some newStart\<rparr>)
                  in Inr (save ((pushUndo (EditE showId prevStart) s)
                            \<lparr>overrides := (overrides s)(showId \<mapsto> ov')\<rparr>)))))"

text \<open>\<open>state.overrides[showId]?.audId || rec.audId\<close> and its film counterpart.\<close>

definition prevAudOf :: "state \<Rightarrow> string \<Rightarrow> show_rec \<Rightarrow> int option" where
  "prevAudOf s showId rec =
     (case overrides s showId of
        None \<Rightarrow> audId rec
      | Some ov \<Rightarrow> if truthyI (ov_audId ov) then ov_audId ov else audId rec)"

definition prevFilmOf :: "state \<Rightarrow> string \<Rightarrow> show_rec \<Rightarrow> string option" where
  "prevFilmOf s showId rec =
     (case overrides s showId of
        None \<Rightarrow> filmId rec
      | Some ov \<Rightarrow> if truthyS (ov_filmId ov) then ov_filmId ov else filmId rec)"

text \<open>
  \<open>updateShowAud\<close>. The argument is the auditorium id after \<open>parseInt\<close>; \<open>None\<close> stands
  for \<open>undefined\<close>, \<open>null\<close> and the empty string.
\<close>

definition updateShowAud :: "state \<Rightarrow> string \<Rightarrow> int option \<Rightarrow> outcome" where
  "updateShowAud s showId newAud =
     (case getAllShows s of
        Inl e \<Rightarrow> Inl (e, s)
      | Inr shows \<Rightarrow>
          (case findShow showId shows of
             None \<Rightarrow> Inr s
           | Some rec \<Rightarrow>
               (let prevAud = prevAudOf s showId rec
                in if source rec = Manual \<and> (\<exists>x \<in> set (manualShows s). sid x = showId) then
                     (let targetAud = (if newAud = None then prevAud else newAud)
                      in if targetAud = prevAud then Inr s
                         else Inr (save ((pushUndo (MoveAudE showId prevAud) s)
                                \<lparr>manualShows :=
                                   updFirst (\<lambda>x. sid x = showId)
                                     (\<lambda>ms. ms\<lparr>audId := targetAud,
                                               audName := (case audById s targetAud of
                                                             Some a \<Rightarrow> a_name a | None \<Rightarrow> [])\<rparr>)
                                     (manualShows s)\<rparr>)))
                   else if newAud = None then
                     (case overrides s showId of
                        None \<Rightarrow> Inr s
                      | Some ov \<Rightarrow>
                          if ov_audId ov \<noteq> None
                          then Inr (save ((pushUndo (MoveAudE showId prevAud) s)
                                 \<lparr>overrides := storeOrDrop (overrides s) showId (ov\<lparr>ov_audId := None\<rparr>)\<rparr>))
                          else Inr s)
                   else if newAud = prevAud then Inr s
                   else
                     (let ov' =
                            (case overrides s showId of
                               None \<Rightarrow> emptyOverride\<lparr>ov_audId := newAud\<rparr>
                             | Some ov \<Rightarrow> ov\<lparr>ov_audId := newAud\<rparr>)
                      in Inr (save ((pushUndo (MoveAudE showId prevAud) s)
                                \<lparr>overrides := (overrides s)(showId \<mapsto> ov')\<rparr>))))))"

text \<open>The fields a manual show takes from a film (\<open>updateShowFilm\<close> and \<open>undo\<close>).\<close>

definition setManualFilm :: "film \<Rightarrow> show_rec \<Rightarrow> show_rec" where
  "setManualFilm f ms =
     ms\<lparr>filmId := Some (f_id f),
        filmTitle := displayTitle f,
        runtime := f_runtime f,
        trailer := f_trailer f,
        clean := f_clean f,
        cycle := cycleMinutes (Some f),
        endT := addMins (start ms) (f_runtime f + f_trailer f)\<rparr>"

text \<open>\<open>updateShowFilm\<close>; the empty string, \<open>null\<close> and \<open>undefined\<close> all become \<open>null\<close>.\<close>

definition updateShowFilm :: "state \<Rightarrow> string \<Rightarrow> string option \<Rightarrow> outcome" where
  "updateShowFilm s showId film_arg =
     (case getAllShows s of
        Inl e \<Rightarrow> Inl (e, s)
      | Inr shows \<Rightarrow>
          (case findShow showId shows of
             None \<Rightarrow> Inr s
           | Some rec \<Rightarrow>
               (let newFilmId = (if film_arg = Some [] then None else film_arg);
                    prevFilmId = prevFilmOf s showId rec
                in if newFilmId = prevFilmId then Inr s
                   else if source rec = Manual \<and> (\<exists>x \<in> set (manualShows s). sid x = showId) then
                     (let s1 = pushUndo (EditFilmE showId prevFilmId) s
                      in if newFilmId = None then Inr (save s1)
                         else (case filmById s newFilmId of
                                 None \<Rightarrow> Inr s1
                               | Some f \<Rightarrow>
                                   Inr (save (s1\<lparr>manualShows :=
                                     updFirst (\<lambda>x. sid x = showId) (setManualFilm f) (manualShows s)\<rparr>))))
                   else if newFilmId = None then
                     (case overrides s showId of
                        None \<Rightarrow> Inr s
                      | Some ov \<Rightarrow>
                          if ov_filmId ov \<noteq> None
                          then Inr (save ((pushUndo (EditFilmE showId prevFilmId) s)
                                 \<lparr>overrides := storeOrDrop (overrides s) showId (ov\<lparr>ov_filmId := None\<rparr>)\<rparr>))
                          else Inr s)
                   else
                     (let ov' =
                            (case overrides s showId of
                               None \<Rightarrow> emptyOverride\<lparr>ov_filmId := newFilmId\<rparr>
                             | Some ov \<Rightarrow> ov\<lparr>ov_filmId := newFilmId\<rparr>)
                      in Inr (save ((pushUndo (EditFilmE showId prevFilmId) s)
                                \<lparr>overrides := (overrides s)(showId \<mapsto> ov')\<rparr>))))))"

text \<open>
  \<open>addManualShow\<close>. The fresh id \<open>`M-${Date.now()}-${Math.floor(Math.random()*1000)}`\<close>
  comes from the clock and the random generator; it is a parameter here.
\<close>

definition addManualShow :: "state \<Rightarrow> string \<Rightarrow> string \<Rightarrow> string \<Rightarrow> state" where
  "addManualShow s newId rowId_arg hm =
     (case find (\<lambda>r. r_rowId r = rowId_arg) (primeRows s @ extraRows s) of
        None \<Rightarrow> s
      | Some rw \<Rightarrow>
          (case (filmById s (r_filmId rw), audById s (r_audId rw)) of
             (Some f, Some a) \<Rightarrow>
               (let st = dtFromHM hm;
                    rec = \<lparr> sid = newId, rowId = rowId_arg, offset = None,
                            audId = Some (a_id a), audName = a_name a,
                            filmId = Some (f_id f), filmTitle = displayTitle f,
                            start = st, endT = addMins st (f_runtime f + f_trailer f),
                            runtime = f_runtime f, trailer = f_trailer f, clean = f_clean f,
                            cycle = cycleMinutes (Some f), source = Manual \<rparr>
                in save ((pushUndo (ManualE rec) s)\<lparr>manualShows := manualShows s @ [rec]\<rparr>))
           | _ \<Rightarrow> s))"

section \<open>Undo engine\<close>

definition unhideShow :: "state \<Rightarrow> string \<Rightarrow> bool \<Rightarrow> state" where
  "unhideShow s showId prevHidden =
     (if \<not> prevHidden then s\<lparr>hiddenShows := (hiddenShows s)(showId := None)\<rparr>
      else s\<lparr>hiddenShows := (hiddenShows s)(showId \<mapsto> True)\<rparr>)"

definition revertOverride :: "state \<Rightarrow> string \<Rightarrow> instant \<Rightarrow> state" where
  "revertOverride s showId prevStart =
     (case overrides s showId of
        None \<Rightarrow> s\<lparr>overrides := (overrides s)(showId \<mapsto> emptyOverride\<lparr>ov_start := Some prevStart\<rparr>)\<rparr>
      | Some ov \<Rightarrow> s\<lparr>overrides := (overrides s)(showId \<mapsto> ov\<lparr>ov_start := Some prevStart\<rparr>)\<rparr>)"

text \<open>The \<open>moveAud\<close> branch of \<open>undo\<close>; it only ever touches the overrides.\<close>

definition undoMoveAud :: "state \<Rightarrow> string \<Rightarrow> int option \<Rightarrow> outcome" where
  "undoMoveAud s showId prev =
     (case getAllShows s of
        Inl e \<Rightarrow> Inl (e, s)
      | Inr shows \<Rightarrow>
          (if (case findShow showId shows of None \<Rightarrow> False | Some r \<Rightarrow> prev = audId r) then
             (case overrides s showId of
                None \<Rightarrow> Inr s
              | Some ov \<Rightarrow> Inr (s\<lparr>overrides := storeOrDrop (overrides s) showId (ov\<lparr>ov_audId := None\<rparr>)\<rparr>))
           else
             (case overrides s showId of
                None \<Rightarrow> Inr (s\<lparr>overrides := (overrides s)(showId \<mapsto> emptyOverride\<lparr>ov_audId := prev\<rparr>)\<rparr>)
              | Some ov \<Rightarrow> Inr (s\<lparr>overrides := (overrides s)(showId \<mapsto> ov\<lparr>ov_audId := prev\<rparr>)\<rparr>))))"

text \<open>The \<open>editFilm\<close> branch of \<open>undo\<close>: manual shows are reverted in place.\<close>

definition undoEditFilm :: "state \<Rightarrow> string \<Rightarrow> string option \<Rightarrow> outcome" where
  "undoEditFilm s showId prevFilm =
     (if \<exists>x \<in> set (manualShows s). sid x = showId then
        (case filmById s prevFilm of
           None \<Rightarrow> Inr s
         | Some f \<Rightarrow>
             Inr (s\<lparr>manualShows := updFirst (\<lambda>x. sid x = showId) (setManualFilm f) (manualShows s)\<rparr>))
      else if \<not> truthyS prevFilm then
        (case overrides s showId of
           None \<Rightarrow> Inr s
         | Some ov \<Rightarrow>
             if truthyS (ov_filmId ov)
             then Inr (s\<lparr>overrides := storeOrDrop (overrides s) showId (ov\<lparr>ov_filmId := None\<rparr>)\<rparr>)
             else Inr s)
      else
        (case getAllShows s of
           Inl e \<Rightarrow> Inl (e, s)
         | Inr shows \<Rightarrow>
             (if (case findShow showId shows of None \<Rightarrow> False | Some r \<Rightarrow> prevFilm = filmId r) then
                (case overrides s showId of
                   None \<Rightarrow> Inr s
                 | Some ov \<Rightarrow>
                     if truthyS (ov_filmId ov)
                     then Inr (s\<lparr>overrides := storeOrDrop (overrides s) showId (ov\<lparr>ov_filmId := None\<rparr>)\<rparr>)
                     else Inr s)
              else
                (case overrides s showId of
                   None \<Rightarrow> Inr (s\<lparr>overrides := (overrides s)(showId \<mapsto> emptyOverride\<lparr>ov_filmId := prevFilm\<rparr>)\<rparr>)
                 | Some ov \<Rightarrow> Inr (s\<lparr>overrides := (overrides s)(showId \<mapsto> ov\<lparr>ov_filmId := prevFilm\<rparr>)\<rparr>)))))"

text \<open>\<open>undo\<close>: \<open>pop\<close> takes the last entry of the array; then the inverse, then \<open>save\<close>.\<close>

definition undo :: "state \<Rightarrow> outcome" where
  "undo s =
     (if undoStack s = [] then Inr s
      else
        (let entry = last (undoStack s);
             s1 = s\<lparr>undoStack := butlast (undoStack s)\<rparr>
         in case entry of
              EditE showId prevStart \<Rightarrow> Inr (save (revertOverride s1 showId prevStart))
            | HideE showId prevHidden \<Rightarrow> Inr (save (unhideShow s1 showId prevHidden))
            | ManualE sh \<Rightarrow>
                Inr (save (s1\<lparr>manualShows := removeFirst (\<lambda>x. sid x = sid sh) (manualShows s1)\<rparr>))
            | MoveAudE showId prev \<Rightarrow>
                (case undoMoveAud s1 showId prev of
                   Inl err \<Rightarrow> Inl err
                 | Inr s2 \<Rightarrow> Inr (save s2))
            | EditFilmE showId prevFilm \<Rightarrow>
                (case undoEditFilm s1 showId prevFilm of
                   Inl err \<Rightarrow> Inl err
                 | Inr s2 \<Rightarrow> Inr (save s2))))"

section \<open>Copying a schedule to other dates\<close>

text \<open>
  \<open>deepCopyRows\<close> (a JSON round trip) and \<open>deepCopyManualShows\<close> (spread plus
  \<open>new Date\<close> of start and end) build new objects with the same values; overrides and
  hidden flags are spread into new objects. In a model of values the copy of each field is
  the field itself. The spread is one level deep: in the program the override objects
  themselves stay shared between the source and the target snapshot, so a later in-place
  edit of one of them shows in both. The model gives the values at the moment
  \<open>copySchedule\<close> returns and says nothing about such later edits.
\<close>

definition deepCopyManualShows :: "show_rec list \<Rightarrow> show_rec list" where
  "deepCopyManualShows ms = map (\<lambda>sh. sh\<lparr>start := start sh, endT := endT sh\<rparr>) ms"

definition copiedSnapshot :: "snapshot \<Rightarrow> snapshot" where
  "copiedSnapshot src =
     \<lparr> sn_primeRows = sn_primeRows src, sn_extraRows = sn_extraRows src,
       sn_manualShows = deepCopyManualShows (sn_manualShows src),
       sn_overrides = sn_overrides src, sn_hiddenShows = sn_hiddenShows src,
       sn_undoStack = [] \<rparr>"

text \<open>\<open>targetDates.forEach\<close>: a falsy target is skipped.\<close>

fun copyTargets :: "snapshot \<Rightarrow> string list \<Rightarrow> (string \<times> snapshot) list \<Rightarrow> (string \<times> snapshot) list" where
  "copyTargets src [] al = al"
| "copyTargets src (t # ts) al =
     (if t = [] then copyTargets src ts al
      else copyTargets src ts (setKey t (copiedSnapshot src) al))"

definition copySchedule :: "state \<Rightarrow> string option \<Rightarrow> string list \<Rightarrow> state" where
  "copySchedule s fromDate targetDates =
     (if targetDates = [] then s
      else
        (let sourceDate = (if truthyS fromDate then fromDate else currentDate s)
         in if \<not> truthyS sourceDate then s
            else
              (let s1 = saveCurrentSchedule s
               in case map_of (scheduleByDate s1) (the sourceDate) of
                    None \<Rightarrow> s1
                  | Some srcSched \<Rightarrow>
                      save (s1\<lparr>scheduleByDate :=
                              copyTargets srcSched targetDates (scheduleByDate s1)\<rparr>))))"

section \<open>Prime page: pre and post time stepping (src/unnamed/part\_001)\<close>

text \<open>\<open>while (t >= firstWindow && steps < 50)\<close>, stepping backwards by the cycle.\<close>

function preTimesLoop :: "instant \<Rightarrow> int \<Rightarrow> instant \<Rightarrow> nat \<Rightarrow> instant list" where
  "preTimesLoop firstWindow c t steps =
     (if firstWindow \<le> t \<and> steps < 50
      then t # preTimesLoop firstWindow c (t - c) (steps + 1)
      else [])"
  by pat_completeness auto
termination
  by (relation "measure (\<lambda>(firstWindow, c, t, steps). 50 - steps)") auto

declare preTimesLoop.simps [simp del]

text \<open>\<open>while (t <= lastWindow && steps < 50)\<close>, stepping forwards by the cycle.\<close>

function postTimesLoop :: "instant \<Rightarrow> int \<Rightarrow> instant \<Rightarrow> nat \<Rightarrow> instant list" where
  "postTimesLoop lastWindow c t steps =
     (if t \<le> lastWindow \<and> steps < 50
      then t # postTimesLoop lastWindow c (t + c) (steps + 1)
      else [])"
  by pat_completeness auto
termination
  by (relation "measure (\<lambda>(lastWindow, c, t, steps). 50 - steps)") auto

declare postTimesLoop.simps [simp del]

text \<open>The \<open>times\<close> arrays the renderer collects for a row, before labelling.\<close>

definition renderPreTimes :: "state \<Rightarrow> row \<Rightarrow> instant list" where
  "renderPreTimes s rw =
     (if truthyS (r_filmId rw) \<and> truthyI (r_audId rw) \<and> truthyS (r_primeHM rw) then
        (let c = cycleMinutes (filmById s (r_filmId rw))
         in if 0 < c
            then (let primeStart = dtFromHM (the (r_primeHM rw))
                  in preTimesLoop (windowFirst s) c (primeStart - c) 0)
            else [])
      else [])"

definition renderPostTimes :: "state \<Rightarrow> row \<Rightarrow> instant list" where
  "renderPostTimes s rw =
     (if truthyS (r_filmId rw) \<and> truthyI (r_audId rw) \<and> truthyS (r_primeHM rw) then
        (let c = cycleMinutes (filmById s (r_filmId rw))
         in if 0 < c
            then (let primeStart = dtFromHM (the (r_primeHM rw))
                  in postTimesLoop (windowLast s) c (primeStart + c) 0)
            else [])
      else [])"

section \<open>Downtime analyzer (src/dashboard.js)\<close>

definition GAP_THRESHOLD_MIN :: int where "GAP_THRESHOLD_MIN = 45"
definition GAP_HUGE_MIN :: int where "GAP_HUGE_MIN = 90"
definition FIT_SLOT_MIN :: int where "FIT_SLOT_MIN = 105"

definition normalizeDateForGap :: "instant \<Rightarrow> instant" where
  "normalizeDateForGap dt = (if getHours dt < 5 then dt + 1440 else dt)"

definition pad :: "int \<Rightarrow> string" where
  "pad n = (let d = show_int n in if length d < 2 then CHR ''0'' # d else d)"

definition to12 :: "instant \<Rightarrow> string" where
  "to12 d =
     (let h = getHours d;
          h12 = (if h mod 12 = 0 then 12 else h mod 12)
      in show_int h12 @ '':'' @ pad (getMinutes d) @ (if 12 \<le> h then ''pm'' else ''am''))"

definition formatDuration :: "int \<Rightarrow> string" where
  "formatDuration mins = show_int (mins div 60) @ ''h'' @ pad (mins mod 60) @ ''m''"

datatype issue_type = Late | Gap | Huge

record issue =
  i_audName :: string
  i_type :: issue_type
  i_message :: string
  i_minutes :: int

record slot =
  s_start :: instant
  s_end :: instant
  s_audName :: string

text \<open>
  Grouping by auditorium id: \<open>byAud\<close> is an object from auditorium id to the array of
  its slots, kept here as an association list in insertion order. A show without an
  auditorium (falsy \<open>audId\<close>) is skipped. Every record \<open>getAllShows\<close> returns carries
  an \<open>end\<close>, so the fallback that computes a missing end from the film is never taken
  and is left out.
\<close>

definition slotOf :: "show_rec \<Rightarrow> slot" where
  "slotOf r = \<lparr>s_start = start r, s_end = endT r, s_audName = audName r\<rparr>"

text \<open>\<open>if (!byAud[audId]) byAud[audId] = []; byAud[audId].push(e)\<close>.\<close>

fun pushSlot :: "int \<Rightarrow> slot \<Rightarrow> (int \<times> slot list) list \<Rightarrow> (int \<times> slot list) list" where
  "pushSlot k e [] = [(k, [e])]"
| "pushSlot k e ((k', l) # al) =
     (if k' = k then (k', l @ [e]) # al else (k', l) # pushSlot k e al)"

definition groupStep :: "(int \<times> slot list) list \<Rightarrow> show_rec \<Rightarrow> (int \<times> slot list) list" where
  "groupStep byAud r =
     (if \<not> truthyI (audId r) then byAud else pushSlot (the (audId r)) (slotOf r) byAud)"

definition groupByAud :: "show_rec list \<Rightarrow> (int \<times> slot list) list" where
  "groupByAud shs = foldl groupStep [] shs"

text \<open>
  \<open>Object.keys(byAud)\<close>: keys that are array indices come first in ascending numeric
  order, the others follow in insertion order.
\<close>

definition isArrayIndex :: "int \<Rightarrow> bool" where
  "isArrayIndex k \<longleftrightarrow> 0 \<le> k \<and> k < 4294967295"

definition objectKeys :: "(int \<times> slot list) list \<Rightarrow> int list" where
  "objectKeys byAud =
     (let ins = map fst byAud
      in sort (filter isArrayIndex ins) @ filter (\<lambda>k. \<not> isArrayIndex k) ins)"

definition lateIssue :: "instant \<Rightarrow> string \<Rightarrow> slot \<Rightarrow> issue list" where
  "lateIssue windowStartRaw aName firstSlot =
     (let windowStart = normalizeDateForGap windowStartRaw;
          firstStart = normalizeDateForGap (s_start firstSlot);
          diffFirst = firstStart - windowStart
      in if FIT_SLOT_MIN \<le> diffFirst
         then [\<lparr>i_audName = aName, i_type = Late,
                 i_message = aName @ '': slot before first show from '' @ to12 windowStartRaw
                    @ '' to '' @ to12 (s_start firstSlot)
                    @ '' ('' @ formatDuration diffFirst @ '')'',
                 i_minutes = diffFirst\<rparr>]
         else [])"

text \<open>The loop \<open>for (let i = 0; i < list.length - 1; i++)\<close>.\<close>

function gapLoop :: "string \<Rightarrow> slot list \<Rightarrow> nat \<Rightarrow> issue list" where
  "gapLoop aName list i =
     (if int i < int (length list) - 1 then
        (let currEnd = normalizeDateForGap (s_end (list ! i));
             nextStart = normalizeDateForGap (s_start (list ! (i + 1)));
             gapMin = nextStart - currEnd
         in (if GAP_THRESHOLD_MIN \<le> gapMin
             then [\<lparr>i_audName = aName,
                     i_type = (if GAP_HUGE_MIN \<le> gapMin then Huge else Gap),
                     i_message = aName @ '': gap from '' @ to12 (s_end (list ! i))
                        @ '' to '' @ to12 (s_start (list ! (i + 1)))
                        @ '' ('' @ formatDuration gapMin @ '')'',
                     i_minutes = gapMin\<rparr>]
             else [])
            @ gapLoop aName list (i + 1))
      else [])"
  by pat_completeness auto
termination
  by (relation "measure (\<lambda>(aName, list, i). length list - i)") auto

declare gapLoop.simps [simp del]

definition sortedSlots :: "slot list \<Rightarrow> slot list" where
  "sortedSlots list = sort_key (\<lambda>e. normalizeDateForGap (s_start e)) list"

definition audIssues :: "instant \<Rightarrow> int \<Rightarrow> slot list \<Rightarrow> issue list" where
  "audIssues windowStartRaw k grp =
     (let list = sortedSlots grp
      in case list of
           [] \<Rightarrow> []
         | firstSlot # _ \<Rightarrow>
             (let aName = (if s_audName firstSlot \<noteq> [] then s_audName firstSlot
                           else ''Aud '' @ show_int k)
              in lateIssue windowStartRaw aName firstSlot @ gapLoop aName list 0))"

definition computeFlaggedIssues :: "state \<Rightarrow> error + issue list" where
  "computeFlaggedIssues s =
     (case getAllShows s of
        Inl e \<Rightarrow> Inl e
      | Inr shs \<Rightarrow>
          (let byAud = groupByAud shs;
               windowStartRaw = dtFromHM (if firstShowHM s \<noteq> [] then firstShowHM s else ''07:00'');
               issues = concat (map (\<lambda>k. case map_of byAud k of
                                            None \<Rightarrow> []
                                          | Some list \<Rightarrow> audIssues windowStartRaw k list)
                                 (objectKeys byAud))
           in Inr (sort_key (\<lambda>i. - i_minutes i) issues)))"

section \<open>Example catalog and schedules\<close>

text \<open>The seed data of \<open>defaultState\<close>, with the film of the basic-cycle scenario
  (cycle 150 minutes) and one prime row anchored at 19:00.\<close>

definition aud1 :: auditorium where
  "aud1 = \<lparr>a_id = 1, a_name = ''Aud 1'', a_format = ''Standard'', a_seats = 200\<rparr>"

definition aud2 :: auditorium where
  "aud2 = \<lparr>a_id = 2, a_name = ''Aud 2'', a_format = ''Standard'', a_seats = 190\<rparr>"

definition filmA :: film where
  "filmA = \<lparr>f_id = ''F1'', f_title = ''Thunder Road'', f_rating = ''PG-13'',
             f_runtime = 112, f_trailer = 18, f_clean = 20, f_format = ''''\<rparr>"

definition filmB :: film where
  "filmB = \<lparr>f_id = ''F2'', f_title = ''Moon Harbor'', f_rating = ''R'',
             f_runtime = 108, f_trailer = 16, f_clean = 20, f_format = ''''\<rparr>"

definition rowR1 :: row where
  "rowR1 = \<lparr>r_rowId = ''PRB-B1'', r_bookingId = Some ''B1'', r_slot = ''1'',
             r_filmId = Some ''F1'', r_audId = Some 1, r_primeHM = Some ''19:00''\<rparr>"

definition rowBlank :: row where
  "rowBlank = \<lparr>r_rowId = ''EX-1-1'', r_bookingId = None, r_slot = ''2'',
                r_filmId = None, r_audId = None, r_primeHM = Some ''''\<rparr>"

definition baseState :: state where
  "baseState = \<lparr>auds = [aud1, aud2], films = [filmA, filmB], primeRows = [rowR1],
     extraRows = [], manualShows = [], overrides = Map.empty, hiddenShows = Map.empty,
     scheduleByDate = [], currentDate = None, firstShowHM = ''07:00'',
     lastShowHM = ''23:00'', undoStack = []\<rparr>"

text \<open>The same schedule with the operating window 18:00 to 20:00: only the prime show
  at 19:00 is generated.\<close>

definition narrowState :: state where
  "narrowState = baseState\<lparr>firstShowHM := ''18:00'', lastShowHM := ''20:00''\<rparr>"

text \<open>A manual show entered at the prime time of \<open>rowR1\<close>, in the same auditorium.\<close>

definition manualM1 :: show_rec where
  "manualM1 = \<lparr>sid = ''M-1-1'', rowId = ''PRB-B1'', offset = None, audId = Some 1,
     audName = ''Aud 1'', filmId = Some ''F1'', filmTitle = ''Thunder Road'',
     start = 1140, endT = 1270, runtime = 112, trailer = 18, clean = 20, cycle = 150,
     source = Manual\<rparr>"

definition dupState :: state where
  "dupState = narrowState\<lparr>manualShows := [manualM1]\<rparr>"

text \<open>An override carrying a start time and a film id that is not in the catalog.\<close>

definition danglingState :: state where
  "danglingState = narrowState\<lparr>overrides :=
     [''PRB-B1:0'' \<mapsto> \<lparr>ov_start = Some 1200, ov_audId = None, ov_filmId = Some ''ZZ''\<rparr>]\<rparr>"


text \<open>A manual show at 20:00 in auditorium 1, added to the narrow schedule.\<close>

definition manualM2 :: show_rec where
  "manualM2 = \<lparr>sid = ''M-2-2'', rowId = ''PRB-B1'', offset = None, audId = Some 1,
     audName = ''Aud 1'', filmId = Some ''F1'', filmTitle = ''Thunder Road'',
     start = 1200, endT = 1330, runtime = 112, trailer = 18, clean = 20, cycle = 150,
     source = Manual\<rparr>"

definition manualState :: state where
  "manualState = narrowState\<lparr>manualShows := [manualM2]\<rparr>"

text \<open>The prime show of \<open>rowR1\<close> redirected to auditorium 2.\<close>

definition regroupState :: state where
  "regroupState = narrowState\<lparr>overrides :=
     [''PRB-B1:0'' \<mapsto> \<lparr>ov_start = None, ov_audId = Some 2, ov_filmId = None\<rparr>]\<rparr>"

text \<open>A schedule holding nothing but the manual show.\<close>

definition soloState :: state where
  "soloState = manualState\<lparr>primeRows := []\<rparr>"

text \<open>A catalog whose film F1 is a ten-minute reel with no trailer and no cleaning time.\<close>

definition filmShort :: film where
  "filmShort = \<lparr>f_id = ''F1'', f_title = ''Short Reel'', f_rating = ''G'',
             f_runtime = 10, f_trailer = 0, f_clean = 0, f_format = ''''\<rparr>"

definition shortState :: state where
  "shortState = baseState\<lparr>films := [filmShort]\<rparr>"

text \<open>A working schedule for 2025-08-19 with one entry on its undo stack and nothing
  stored yet.\<close>

definition storeState :: state where
  "storeState = narrowState\<lparr>currentDate := Some ''2025-08-19'',
     undoStack := [HideE ''PRB-B1:1'' False]\<rparr>"

definition emptySnapshot :: snapshot where
  "emptySnapshot = \<lparr>sn_primeRows = [], sn_extraRows = [], sn_manualShows = [],
     sn_overrides = Map.empty, sn_hiddenShows = Map.empty, sn_undoStack = []\<rparr>"

text \<open>Fourteen stored dates, 2025-01-02 to 2025-01-15, the last one current.\<close>

definition fullState :: state where
  "fullState = narrowState\<lparr>currentDate := Some ''2025-01-15'',
     scheduleByDate := map (\<lambda>d. (d, emptySnapshot))
       [''2025-01-02'', ''2025-01-03'', ''2025-01-04'', ''2025-01-05'', ''2025-01-06'',
        ''2025-01-07'', ''2025-01-08'', ''2025-01-09'', ''2025-01-10'', ''2025-01-11'',
        ''2025-01-12'', ''2025-01-13'', ''2025-01-14'', ''2025-01-15'']\<rparr>"

text \<open>One morning show (09:00 to 11:10) and two manual shows (12:10 to 14:20, and 16:00)
  in auditorium 1, with the window opening at 07:00.\<close>

definition rowMorning :: row where
  "rowMorning = rowR1\<lparr>r_primeHM := Some ''09:00''\<rparr>"

definition manualNoon :: show_rec where
  "manualNoon = manualM2\<lparr>sid := ''M-3-3'', start := 730, endT := 860\<rparr>"

definition manualEve :: show_rec where
  "manualEve = manualM2\<lparr>sid := ''M-4-4'', start := 960, endT := 1090\<rparr>"

definition gapState :: state where
  "gapState = baseState\<lparr>primeRows := [rowMorning], lastShowHM := ''10:00'',
     manualShows := [manualNoon, manualEve]\<rparr>"

text \<open>The row \<open>rowR1\<close> assigned to an auditorium id that is not in the catalog.\<close>

definition rowDangling :: row where
  "rowDangling = rowR1\<lparr>r_audId := Some 9\<rparr>"

section \<open>Cycle generator: recurrence correctness\<close>

lemma dtFromHM_range: "0 \<le> dtFromHM hm \<and> dtFromHM hm < 1440"
  by (auto simp: dtFromHM_def split: option.splits)

lemma start_makeRec [simp]: "start (makeRec rw off st f a) = st"
  by (simp add: makeRec_def)

lemma rev_upto_step: "1 \<le> (n::int) \<Longrightarrow> rev [1..n] = n # rev [1..n - 1]"
  by (simp add: upto_rec2)

lemma preLoop_starts:
  "map start (preLoop rw f a w1 p c n) =
     map (\<lambda>i. p - i * c) (filter (\<lambda>i. w1 \<le> p - i * c) (rev [1..n]))"
proof (induction rw f a w1 p c n rule: preLoop.induct)
  case (1 rw f a w1 p c i)
  show ?case
  proof (cases "1 \<le> i")
    case True
    then show ?thesis
      using 1 by (subst preLoop.simps) (auto simp: rev_upto_step addMins_def Let_def)
  next
    case False
    then show ?thesis by (subst preLoop.simps) simp
  qed
qed

lemma postLoop_starts:
  "map start (postLoop rw f a w2 p c pc i) =
     map (\<lambda>i. p + i * c) (filter (\<lambda>i. p + i * c \<le> w2) [i..pc])"
proof (induction rw f a w2 p c pc i rule: postLoop.induct)
  case (1 rw f a w2 p c pc i)
  show ?case
  proof (cases "i \<le> pc")
    case True
    then show ?thesis
      using 1 by (subst postLoop.simps) (auto simp: upto_rec1 addMins_def Let_def)
  next
    case False
    then show ?thesis by (subst postLoop.simps) simp
  qed
qed

lemma step_le_div: "0 < (c::int) \<Longrightarrow> i \<le> d div c \<Longrightarrow> i * c \<le> d"
proof -
  assume c: "0 < c" and i: "i \<le> d div c"
  have "i * c \<le> (d div c) * c" using c i by (simp add: mult_right_mono)
  also have "\<dots> \<le> d" using c by (metis mult.commute pos_mod_sign add_le_cancel_left add.right_neutral mult_div_mod_eq)
  finally show ?thesis .
qed


lemma filter_pre_all:
  assumes "0 < (c::int)"
  shows "filter (\<lambda>i. w1 \<le> p - i * c) (rev [1..(p - w1) div c]) = rev [1..(p - w1) div c]"
proof -
  have "\<forall>i \<in> set (rev [1..(p - w1) div c]). w1 \<le> p - i * c"
    using step_le_div [OF assms, of _ "p - w1"] by (auto simp: algebra_simps)
  then show ?thesis by (simp only: filter_True)
qed

lemma filter_post_all:
  assumes "0 < (c::int)"
  shows "filter (\<lambda>i. p + i * c \<le> w2) [1..(w2 - p) div c] = [1..(w2 - p) div c]"
proof -
  have "\<forall>i \<in> set [1..(w2 - p) div c]. p + i * c \<le> w2"
    using step_le_div [OF assms, of _ "w2 - p"] by (auto simp: algebra_simps)
  then show ?thesis by (simp only: filter_True)
qed

lemma buildRowShowtimes_starts:
  assumes "filmById s (r_filmId rw) = Some f" and "audById s (r_audId rw) = Some a"
    and "truthyS (r_primeHM rw)" and "0 < cycleMinutes (Some f)"
  shows "map start (buildRowShowtimes s rw) =
     (let p = dtFromHM (the (r_primeHM rw)); c = cycleMinutes (Some f);
          w1 = windowFirst s; w2 = windowLast s
      in map (\<lambda>i. p - i * c) (filter (\<lambda>i. w1 \<le> p - i * c) (rev [1..(p - w1) div c]))
         @ [p]
         @ map (\<lambda>i. p + i * c) (filter (\<lambda>i. p + i * c \<le> w2) [1..(w2 - p) div c]))"
  using assms
  by (simp add: buildRowShowtimes_def Let_def preLoop_starts postLoop_starts diffMins_def)

lemma buildRowShowtimes_empty:
  "filmById s (r_filmId rw) = None \<or> audById s (r_audId rw) = None
     \<or> \<not> truthyS (r_primeHM rw) \<or> cycleMinutes (filmById s (r_filmId rw)) \<le> 0
   \<Longrightarrow> buildRowShowtimes s rw = []"
  by (auto simp: buildRowShowtimes_def Let_def split: option.splits)

lemma length_upto_int: "length [1..n] = nat n"
  by simp


text \<open>
  C1 (as amended). A row whose film or auditorium does not resolve in the catalog (an
  absent filmId or audId never resolves), whose primeHM is absent, or whose film has a
  non-positive cycle generates nothing. Otherwise, with the window's last instant moved
  to the next day when its hour is before 5, the starts are the pre-shows p - i*c for i
  from preCount down to 1 (kept when not before first), the prime p itself, and the
  post-shows p + i*c for i from 1 to postCount (kept when not after last); for p inside
  [first, last) the count is floor((p-first)/c) + 1 + floor((last-p)/c) and every start
  is p + k*c.
\<close>

theorem buildRowShowtimes_recurrence:
  "(let fo = filmById s (r_filmId rw); ao = audById s (r_audId rw);
        c = cycleMinutes fo; p = dtFromHM (the (r_primeHM rw));
        w1 = windowFirst s; w2 = windowLast s;
        out = buildRowShowtimes s rw
    in w2 = (if dtFromHM (lastShowHM s) div 60 < 5 then dtFromHM (lastShowHM s) + 1440
             else dtFromHM (lastShowHM s))
       \<and> (r_filmId rw = None \<or> r_audId rw = None \<or> \<not> truthyS (r_primeHM rw)
            \<or> fo = None \<or> ao = None \<or> c \<le> 0 \<longrightarrow> out = [])
       \<and> (fo \<noteq> None \<and> ao \<noteq> None \<and> truthyS (r_primeHM rw) \<and> 0 < c \<longrightarrow>
            map start out =
              map (\<lambda>i. p - i * c) (filter (\<lambda>i. w1 \<le> p - i * c) (rev [1..(p - w1) div c]))
              @ [p]
              @ map (\<lambda>i. p + i * c) (filter (\<lambda>i. p + i * c \<le> w2) [1..(w2 - p) div c])
            \<and> (w1 \<le> p \<and> p < w2 \<longrightarrow>
                 int (length out) = (p - w1) div c + 1 + (w2 - p) div c
                 \<and> (\<forall>x \<in> set out. \<exists>k. start x = p + k * c))))"
proof -
  define fo where "fo = filmById s (r_filmId rw)"
  define ao where "ao = audById s (r_audId rw)"
  define c where "c = cycleMinutes fo"
  define p where "p = dtFromHM (the (r_primeHM rw))"
  define w1 where "w1 = windowFirst s"
  define w2 where "w2 = windowLast s"
  define out where "out = buildRowShowtimes s rw"
  have win: "w2 = (if dtFromHM (lastShowHM s) div 60 < 5 then dtFromHM (lastShowHM s) + 1440
             else dtFromHM (lastShowHM s))"
    using dtFromHM_range [of "lastShowHM s"]
    by (simp add: w2_def windowLast_def getHours_def Let_def)
  have none_f: "r_filmId rw = None \<Longrightarrow> fo = None"
    by (simp add: fo_def filmById_def)
  have none_a: "r_audId rw = None \<Longrightarrow> ao = None"
    by (simp add: ao_def audById_def)
  have empty: "r_filmId rw = None \<or> r_audId rw = None \<or> \<not> truthyS (r_primeHM rw)
            \<or> fo = None \<or> ao = None \<or> c \<le> 0 \<longrightarrow> out = []"
    using buildRowShowtimes_empty [of s rw] none_f none_a
    unfolding fo_def ao_def c_def out_def by blast
  have main: "map start out =
              map (\<lambda>i. p - i * c) (filter (\<lambda>i. w1 \<le> p - i * c) (rev [1..(p - w1) div c]))
              @ [p]
              @ map (\<lambda>i. p + i * c) (filter (\<lambda>i. p + i * c \<le> w2) [1..(w2 - p) div c])
            \<and> (w1 \<le> p \<and> p < w2 \<longrightarrow>
                 int (length out) = (p - w1) div c + 1 + (w2 - p) div c
                 \<and> (\<forall>x \<in> set out. \<exists>k. start x = p + k * c))"
    if h: "fo \<noteq> None \<and> ao \<noteq> None \<and> truthyS (r_primeHM rw) \<and> 0 < c"
  proof -
    from h obtain f a where f: "fo = Some f" and a: "ao = Some a" by auto
    have cpos: "0 < c" using h by simp
    have st: "map start out =
              map (\<lambda>i. p - i * c) (filter (\<lambda>i. w1 \<le> p - i * c) (rev [1..(p - w1) div c]))
              @ [p]
              @ map (\<lambda>i. p + i * c) (filter (\<lambda>i. p + i * c \<le> w2) [1..(w2 - p) div c])"
      using buildRowShowtimes_starts [of s rw f a] f a h
      unfolding fo_def ao_def c_def out_def p_def w1_def w2_def
      by (simp add: Let_def)
    have inwin: "int (length out) = (p - w1) div c + 1 + (w2 - p) div c
                 \<and> (\<forall>x \<in> set out. \<exists>k. start x = p + k * c)"
      if w: "w1 \<le> p \<and> p < w2"
    proof -
      have pre0: "0 \<le> (p - w1) div c" using w cpos by (simp add: pos_imp_zdiv_nonneg_iff)
      have post0: "0 \<le> (w2 - p) div c" using w cpos by (simp add: pos_imp_zdiv_nonneg_iff)
      have st': "map start out =
              map (\<lambda>i. p - i * c) (rev [1..(p - w1) div c]) @ [p]
              @ map (\<lambda>i. p + i * c) [1..(w2 - p) div c]"
        using st by (simp only: filter_pre_all [OF cpos] filter_post_all [OF cpos])
      have "length (map start out) = nat ((p - w1) div c) + 1 + nat ((w2 - p) div c)"
        by (simp only: st') simp
      then have len: "int (length out) = (p - w1) div c + 1 + (w2 - p) div c"
        using pre0 post0 by simp
      have form: "\<exists>k. start x = p + k * c" if x: "x \<in> set out" for x
      proof -
        have "start x \<in> set (map start out)" using x by simp
        then have "start x \<in> (\<lambda>i. p - i * c) ` set [1..(p - w1) div c] \<union> {p}
                      \<union> (\<lambda>i. p + i * c) ` set [1..(w2 - p) div c]"
          by (simp only: st') auto
        then consider i where "start x = p - i * c" | "start x = p" | i where "start x = p + i * c"
          by auto
        then show ?thesis
        proof cases
          case (1 i)
          then have "start x = p + (- i) * c" by simp
          then show ?thesis by blast
        next
          case 2
          then have "start x = p + 0 * c" by simp
          then show ?thesis by blast
        next
          case (3 i)
          then show ?thesis by blast
        qed
      qed
      from len form show ?thesis by blast
    qed
    from st inwin show ?thesis by blast
  qed
  from win empty main show ?thesis
    unfolding fo_def ao_def c_def out_def p_def w1_def w2_def Let_def by blast
qed


section \<open>Resolution: ordering and deduplication\<close>

lemma mapE_Inr:
  "mapE g xs = Inr ys \<Longrightarrow> list_all2 (\<lambda>x y. g x = Inr y) xs ys"
  by (induction xs arbitrary: ys) (auto split: sum.splits)

lemma dedup_subset: "set (dedup seen rs) \<subseteq> set rs"
  by (induction rs arbitrary: seen) auto

lemma dedup_sorted:
  "sorted (map start rs) \<Longrightarrow> sorted (map start (dedup seen rs))"
proof (induction rs arbitrary: seen)
  case Nil
  then show ?case by simp
next
  case (Cons r rs)
  have "\<forall>x \<in> set (dedup (insert (showKey r) seen) rs). start r \<le> start x"
    using Cons.prems dedup_subset [of "insert (showKey r) seen" rs] by auto
  then show ?case using Cons by auto
qed

lemma dedup_keys_fresh: "r \<in> set (dedup seen rs) \<Longrightarrow> showKey r \<notin> seen"
  by (induction rs arbitrary: seen) (auto split: if_splits)

lemma dedup_distinct_keys: "distinct (map showKey (dedup seen rs))"
proof (induction rs arbitrary: seen)
  case Nil
  then show ?case by simp
next
  case (Cons r rs)
  have "showKey r \<notin> showKey ` set (dedup (insert (showKey r) seen) rs)"
  proof
    assume "showKey r \<in> showKey ` set (dedup (insert (showKey r) seen) rs)"
    then obtain x where x: "x \<in> set (dedup (insert (showKey r) seen) rs)"
      and k: "showKey r = showKey x" by auto
    from dedup_keys_fresh [OF x] k show False by simp
  qed
  then show ?case using Cons.IH by simp
qed

lemma showKey_triple: "triple x = triple y \<Longrightarrow> showKey x = showKey y"
  by (simp add: triple_def showKey_def)

lemma distinct_keys_triples:
  "distinct (map showKey rs) \<Longrightarrow> distinct (map triple rs)"
proof (induction rs)
  case Nil
  then show ?case by simp
next
  case (Cons r rs)
  have "triple r \<notin> triple ` set rs"
  proof
    assume "triple r \<in> triple ` set rs"
    then obtain y where y: "y \<in> set rs" and t: "triple r = triple y" by auto
    have "showKey r = showKey y" using t by (rule showKey_triple)
    then have "showKey r \<in> showKey ` set rs" using y by (simp add: image_iff) blast
    then show False using Cons.prems by simp
  qed
  then show ?case using Cons by simp
qed

lemma dedup_subseq: "subseq (dedup seen rs) rs"
proof (induction rs arbitrary: seen)
  case Nil
  then show ?case by simp
next
  case (Cons r rs)
  show ?case
  proof (cases "showKey r \<in> seen")
    case True
    have "subseq (dedup seen rs) (r # rs)"
      using Cons.IH [of seen] by (rule list_emb_Cons)
    then show ?thesis using True by simp
  next
    case False
    have "subseq (r # dedup (insert (showKey r) seen) rs) (r # rs)"
      using Cons.IH [of "insert (showKey r) seen"] by simp
    then show ?thesis using False by simp
  qed
qed


lemma dedup_keeps_first:
  "showKey r \<notin> seen \<Longrightarrow> find (\<lambda>y. showKey y = showKey r) rs = Some r
     \<Longrightarrow> r \<in> set (dedup seen rs)"
proof (induction rs arbitrary: seen)
  case Nil
  then show ?case by simp
next
  case (Cons x rs)
  show ?case
  proof (cases "showKey x = showKey r")
    case True
    then have "x = r" using Cons.prems(2) by simp
    then show ?thesis using Cons.prems(1) by simp
  next
    case False
    then have f: "find (\<lambda>y. showKey y = showKey r) rs = Some r"
      using Cons.prems(2) by simp
    have a: "r \<in> set (dedup seen rs)" using Cons.IH [OF Cons.prems(1) f] .
    have "showKey r \<notin> insert (showKey x) seen" using False Cons.prems(1) by simp
    then have b: "r \<in> set (dedup (insert (showKey x) seen) rs)" using Cons.IH f by blast
    show ?thesis using a b by simp
  qed
qed

lemma dedup_first_of_key:
  "r \<in> set (dedup seen rs) \<Longrightarrow> find (\<lambda>y. showKey y = showKey r) rs = Some r"
proof (induction rs arbitrary: seen)
  case Nil
  then show ?case by simp
next
  case (Cons x rs)
  show ?case
  proof (cases "showKey x = showKey r")
    case True
    have fresh: "showKey r \<notin> seen" using dedup_keys_fresh [OF Cons.prems] .
    then have nx: "showKey x \<notin> seen" using True by simp
    have "r \<notin> set (dedup (insert (showKey x) seen) rs)"
    proof
      assume "r \<in> set (dedup (insert (showKey x) seen) rs)"
      from dedup_keys_fresh [OF this] True show False by simp
    qed
    moreover have "r \<in> set (x # dedup (insert (showKey x) seen) rs)"
      using Cons.prems nx by simp
    ultimately have "r = x" by simp
    then show ?thesis by simp
  next
    case False
    have "r \<in> set (dedup seen rs) \<or> r \<in> set (dedup (insert (showKey x) seen) rs)"
    proof (cases "showKey x \<in> seen")
      case True
      then show ?thesis using Cons.prems by simp
    next
      case nx: False
      then have "r \<in> set (x # dedup (insert (showKey x) seen) rs)" using Cons.prems by simp
      moreover have "r \<noteq> x" using False by auto
      ultimately show ?thesis by simp
    qed
    then have "find (\<lambda>y. showKey y = showKey r) rs = Some r"
      using Cons.IH by blast
    then show ?thesis using False by simp
  qed
qed

text \<open>
  C10. Whenever resolution returns, the list it returns is in non-decreasing order of
  start time: the stable sort orders it and deduplication only drops elements.
\<close>

theorem getAllShows_sorted:
  "getAllShows s = Inr xs \<Longrightarrow> sorted (map start xs)"
proof -
  assume g: "getAllShows s = Inr xs"
  then obtain mapped where xs: "xs = dedup {} (sort_key start mapped)"
    by (auto simp: getAllShows_def split: sum.splits)
  have "sorted (map start (sort_key start mapped))" by (rule sorted_sort_key)
  then show ?thesis unfolding xs by (rule dedup_sorted)
qed

lemma digit_val_nth: "k < 10 \<Longrightarrow> digit_val (''0123456789'' ! k) = int k"
proof -
  assume "k < 10"
  then have "k \<in> {0, 1, 2, 3, 4, 5, 6, 7, 8, 9}" by auto
  then show ?thesis by (auto simp: digit_val_def)
qed

lemma nth_digit_in: "k < 10 \<Longrightarrow> ''0123456789'' ! k \<in> set ''0123456789''"
  by (rule nth_mem) simp

lemma parseInt_snoc: "parseInt (ds @ [c]) = 10 * parseInt ds + digit_val c"
  by (simp add: parseInt_def)

lemma parseInt_digits: "parseInt (digits n) = int n"
proof (induction n rule: digits.induct)
  case (1 n)
  show ?case
  proof (cases "n < 10")
    case True
    then show ?thesis
      by (subst digits.simps) (simp add: parseInt_def digit_val_nth)
  next
    case False
    have m: "n mod 10 < 10" by simp
    have "parseInt (digits n) = 10 * parseInt (digits (n div 10)) + digit_val (''0123456789'' ! (n mod 10))"
      using False by (subst digits.simps) (simp add: parseInt_snoc)
    also have "\<dots> = 10 * int (n div 10) + int (n mod 10)"
      using 1 [OF False] digit_val_nth [OF m] by simp
    also have "\<dots> = int n" by presburger
    finally show ?thesis .
  qed
qed

lemma digits_chars: "set (digits n) \<subseteq> set ''0123456789''"
proof (induction n rule: digits.induct)
  case (1 n)
  show ?case
  proof (cases "n < 10")
    case True
    then show ?thesis using nth_digit_in [of n] by (subst digits.simps) simp
  next
    case False
    have m: "n mod 10 < 10" by simp
    show ?thesis
      using False 1 [OF False] nth_digit_in [OF m] by (subst digits.simps) simp
  qed
qed

lemma digits_nonempty: "digits n \<noteq> []"
  by (subst digits.simps) auto

lemma digits_inj: "digits n = digits m \<Longrightarrow> n = m"
proof -
  assume "digits n = digits m"
  then have "parseInt (digits n) = parseInt (digits m)" by simp
  then show ?thesis by (simp add: parseInt_digits)
qed

lemma show_int_chars: "set (show_int i) \<subseteq> set ''-0123456789''"
proof (cases "i < 0")
  case True
  have "set (digits (nat (- i))) \<subseteq> set ''-0123456789''"
    using digits_chars [of "nat (- i)"] by (simp add: subset_iff)
  then show ?thesis using True by (simp add: show_int_def)
next
  case False
  have "set (digits (nat i)) \<subseteq> set ''-0123456789''"
    using digits_chars [of "nat i"] by (simp add: subset_iff)
  then show ?thesis using False by (simp add: show_int_def)
qed

lemma show_int_inj: "show_int i = show_int j \<Longrightarrow> i = j"
proof -
  assume e: "show_int i = show_int j"
  have nd: "CHR ''-'' \<noteq> hd (digits n)" for n
  proof -
    have "hd (digits n) \<in> set (digits n)" using digits_nonempty by simp
    then have "hd (digits n) \<in> set ''0123456789''" using digits_chars by blast
    then show ?thesis by auto
  qed
  have hdeq: "digits n = CHR ''-'' # ds \<Longrightarrow> False" for n ds
    using nd [of n] by simp
  show ?thesis
  proof (cases "i < 0")
    case True
    show ?thesis
    proof (cases "j < 0")
      case j: True
      from e True j have "digits (nat (- i)) = digits (nat (- j))" by (simp add: show_int_def)
      then have "nat (- i) = nat (- j)" by (rule digits_inj)
      then show ?thesis using True j by simp
    next
      case j: False
      from e True j have "digits (nat j) = CHR ''-'' # digits (nat (- i))"
        by (simp add: show_int_def)
      then show ?thesis using hdeq by blast
    qed
  next
    case False
    show ?thesis
    proof (cases "j < 0")
      case j: True
      from e False j have "digits (nat i) = CHR ''-'' # digits (nat (- j))"
        by (simp add: show_int_def)
      then show ?thesis using hdeq by blast
    next
      case j: False
      from e False j have "digits (nat i) = digits (nat j)" by (simp add: show_int_def)
      then have "nat i = nat j" by (rule digits_inj)
      then show ?thesis using False j by simp
    qed
  qed
qed

lemma strI_chars: "CHR ''_'' \<notin> set (strI a)"
proof (cases a)
  case None
  then show ?thesis by (simp add: strI_def)
next
  case (Some v)
  have "CHR ''_'' \<notin> set ''-0123456789''" by simp
  then have "CHR ''_'' \<notin> set (show_int v)" using show_int_chars [of v] by blast
  then show ?thesis using Some by (simp add: strI_def)
qed

lemma show_int_no_sep: "CHR ''_'' \<notin> set (show_int v)"
proof -
  have "CHR ''_'' \<notin> set ''-0123456789''" by simp
  then show ?thesis using show_int_chars [of v] by blast
qed

lemma strI_inj: "strI a = strI b \<Longrightarrow> a = b"
proof -
  assume e: "strI a = strI b"
  have nn: "show_int v \<noteq> ''null''" for v
  proof
    assume "show_int v = ''null''"
    then have "CHR ''n'' \<in> set (show_int v)" by simp
    then have "CHR ''n'' \<in> set ''-0123456789''" using show_int_chars [of v] by blast
    then show False by simp
  qed
  show ?thesis
  proof (cases a)
    case None
    show ?thesis
    proof (cases b)
      case bn: None
      then show ?thesis using None by simp
    next
      case (Some w)
      then have "show_int w = ''null''" using e None by (simp add: strI_def)
      then show ?thesis using nn by blast
    qed
  next
    case (Some v)
    show ?thesis
    proof (cases b)
      case None
      then have "show_int v = ''null''" using e Some by (simp add: strI_def)
      then show ?thesis using nn by blast
    next
      case bs: (Some w)
      then have "show_int v = show_int w" using e Some by (simp add: strI_def)
      then have "v = w" by (rule show_int_inj)
      then show ?thesis using Some bs by simp
    qed
  qed
qed

lemma split_at_sep:
  assumes "xs @ c # ys = xs' @ c # ys'" and "c \<notin> set xs" and "c \<notin> set xs'"
  shows "xs = xs' \<and> ys = ys'"
proof -
  have tw: "c \<notin> set zs \<Longrightarrow> takeWhile (\<lambda>x. x \<noteq> c) (zs @ c # ws) = zs" for zs ws
    by (induction zs) auto
  have a: "takeWhile (\<lambda>x. x \<noteq> c) (xs @ c # ys) = xs"
    using assms(2) by (rule tw)
  have b: "takeWhile (\<lambda>x. x \<noteq> c) (xs' @ c # ys') = xs'"
    using assms(3) by (rule tw)
  from a b assms(1) have "xs = xs'" by simp
  then show ?thesis using assms(1) by simp
qed

lemma showKey_inj:
  assumes "showKey x = showKey y"
  shows "start x = start y \<and> audId x = audId y \<and> strS (filmId x) = strS (filmId y)"
proof -
  from assms have e: "show_int (start x) @ CHR ''_'' # (strI (audId x) @ CHR ''_'' # strS (filmId x))
      = show_int (start y) @ CHR ''_'' # (strI (audId y) @ CHR ''_'' # strS (filmId y))"
    by (simp add: showKey_def)
  from split_at_sep [OF e show_int_no_sep show_int_no_sep]
  have 1: "show_int (start x) = show_int (start y)"
    and r: "strI (audId x) @ CHR ''_'' # strS (filmId x) = strI (audId y) @ CHR ''_'' # strS (filmId y)"
    by simp_all
  from split_at_sep [OF r strI_chars strI_chars]
  have 2: "strI (audId x) = strI (audId y)" and 3: "strS (filmId x) = strS (filmId y)" by simp_all
  from 1 have "start x = start y" by (rule show_int_inj)
  moreover from 2 have "audId x = audId y" by (rule strI_inj)
  ultimately show ?thesis using 3 by simp
qed

lemma strS_inj:
  "a \<noteq> Some ''null'' \<Longrightarrow> b \<noteq> Some ''null'' \<Longrightarrow> strS a = strS b \<Longrightarrow> a = b"
  by (cases a; cases b) (simp_all add: strS_def)

lemma showKey_triple_iff:
  assumes "filmId x \<noteq> Some ''null''" and "filmId y \<noteq> Some ''null''"
  shows "showKey x = showKey y \<longleftrightarrow> triple x = triple y"
proof
  assume "showKey x = showKey y"
  from showKey_inj [OF this] strS_inj [OF assms] show "triple x = triple y"
    by (simp add: triple_def)
next
  assume "triple x = triple y"
  then show "showKey x = showKey y" by (rule showKey_triple)
qed

lemma find_pred_cong:
  "(\<And>y. y \<in> set ys \<Longrightarrow> P y \<longleftrightarrow> Q y) \<Longrightarrow> find P ys = find Q ys"
  by (induction ys) auto


text \<open>
  C4. Whenever resolution returns, no two returned shows share the triple
  (start, audId, filmId). The returned list is the start-sorted list of resolved shows
  with elements dropped (order kept). A show of the sorted list is kept exactly when it
  is the first one there carrying its deduplication key; when no resolved show has the
  film id "null" (film ids are created as "F" followed by a timestamp, and the key
  prints a missing film as null), that is exactly when it is the first one there with
  its triple, so of each group of duplicates the earliest is kept and the rest dropped.
\<close>

theorem getAllShows_dedup:
  "getAllShows s = Inr xs \<Longrightarrow>
     distinct (map triple xs)
     \<and> (\<exists>mapped. mappedShows s = Inr mapped
          \<and> subseq xs (sort_key start mapped)
          \<and> (\<forall>y \<in> set (sort_key start mapped).
                y \<in> set xs \<longleftrightarrow>
                find (\<lambda>z. showKey z = showKey y) (sort_key start mapped) = Some y)
          \<and> ((\<forall>r \<in> set mapped. filmId r \<noteq> Some ''null'') \<longrightarrow>
               (\<forall>y \<in> set (sort_key start mapped).
                  y \<in> set xs \<longleftrightarrow>
                  find (\<lambda>z. triple z = triple y) (sort_key start mapped) = Some y)))"
proof -
  assume g: "getAllShows s = Inr xs"
  then obtain mapped where m: "mappedShows s = Inr mapped"
    and xs: "xs = dedup {} (sort_key start mapped)"
    by (auto simp: getAllShows_def split: sum.splits)
  have d: "distinct (map triple xs)"
    unfolding xs by (rule distinct_keys_triples) (rule dedup_distinct_keys)
  have sub: "subseq xs (sort_key start mapped)"
    unfolding xs by (rule dedup_subseq)
  have kept: "y \<in> set xs \<longleftrightarrow>
          find (\<lambda>z. showKey z = showKey y) (sort_key start mapped) = Some y" for y
    unfolding xs using dedup_first_of_key [of y "{}"] dedup_keeps_first [of y "{}"] by blast
  have keptT: "y \<in> set xs \<longleftrightarrow>
          find (\<lambda>z. triple z = triple y) (sort_key start mapped) = Some y"
    if nn: "\<forall>r \<in> set mapped. filmId r \<noteq> Some ''null''"
      and y: "y \<in> set (sort_key start mapped)" for y
  proof -
    have yn: "filmId y \<noteq> Some ''null''" using nn y by simp
    have "(showKey z = showKey y) \<longleftrightarrow> (triple z = triple y)"
      if "z \<in> set (sort_key start mapped)" for z
    proof -
      have "filmId z \<noteq> Some ''null''" using nn that by simp
      then show ?thesis using yn by (rule showKey_triple_iff)
    qed
    then have "find (\<lambda>z. showKey z = showKey y) (sort_key start mapped)
             = find (\<lambda>z. triple z = triple y) (sort_key start mapped)"
      by (rule find_pred_cong)
    then show ?thesis using kept [of y] by simp
  qed
  from d m sub kept keptT show ?thesis by blast
qed

section \<open>Override regrouping\<close>

lemma mapE_member:
  "mapE g xs = Inr ys \<Longrightarrow> y \<in> set ys \<Longrightarrow> \<exists>x \<in> set xs. g x = Inr y"
proof (induction xs arbitrary: ys)
  case Nil
  then show ?case by simp
next
  case (Cons x xs)
  from Cons.prems(1) obtain z zs where gx: "g x = Inr z" and m: "mapE g xs = Inr zs"
    and ys: "ys = z # zs"
    by (auto split: sum.splits)
  show ?case
  proof (cases "y = z")
    case True
    then show ?thesis using gx by simp
  next
    case False
    then have "y \<in> set zs" using Cons.prems(2) ys by simp
    from Cons.IH [OF m this] show ?thesis by auto
  qed
qed

lemma filmById_id: "filmById s (Some k) = Some f \<Longrightarrow> f_id f = k"
  by (auto simp: filmById_def find_Some_iff)

lemma applyStart_fields:
  "applyStart s ov r = Inr u \<Longrightarrow>
     audId u = audId r \<and> filmId u = filmId r \<and> rowId u = rowId r
     \<and> source u = source r \<and> sid u = sid r \<and> audName u = audName r"
  unfolding applyStart_def
  by (cases "ov_start ov";
      cases "endOfMovie (the (ov_start ov)) (filmById s (if truthyS (ov_filmId ov) then ov_filmId ov else filmId r))")
     auto

lemma applyAud_fields:
  "audId (applyAud s ov u) = (if truthyI (ov_audId ov) then ov_audId ov else audId u)
   \<and> filmId (applyAud s ov u) = filmId u \<and> rowId (applyAud s ov u) = rowId u
   \<and> source (applyAud s ov u) = source u \<and> sid (applyAud s ov u) = sid u"
  by (simp add: applyAud_def)

lemma applyFilm_fields:
  "audId (applyFilm s ov r u) = audId u
   \<and> rowId (applyFilm s ov r u) = rowId u
   \<and> source (applyFilm s ov r u) = source u \<and> sid (applyFilm s ov r u) = sid u"
  by (simp add: applyFilm_def split: option.splits)

lemma applyFilm_filmId:
  assumes "filmId u = filmId r"
  shows "filmId (applyFilm s ov r u) = filmId r
   \<or> (truthyS (ov_filmId ov) \<and> ov_filmId ov \<noteq> filmId r
       \<and> truthyS (filmId (applyFilm s ov r u)))"
proof (cases "truthyS (ov_filmId ov) \<and> ov_filmId ov \<noteq> filmId r")
  case False
  then have "applyFilm s ov r u = u" unfolding applyFilm_def by (rule if_not_P)
  then show ?thesis using assms by simp
next
  case True
  then obtain k where k: "ov_filmId ov = Some k" "k \<noteq> []"
    by (auto simp: truthyS_def split: option.splits)
  show ?thesis
  proof (cases "filmById s (Some k)")
    case None
    then show ?thesis using k assms by (simp add: applyFilm_def)
  next
    case (Some f)
    then have "f_id f = k" by (rule filmById_id)
    then show ?thesis using True k Some by (simp add: applyFilm_def truthyS_def)
  qed
qed

lemma regroup_fields:
  "audId (regroup ov r u) = audId u \<and> filmId (regroup ov r u) = filmId u
   \<and> sid (regroup ov r u) = sid u"
  by (simp add: regroup_def Let_def)

lemma applyOverride_regroups:
  assumes "applyOverride s r = Inr u"
    and "audId u \<noteq> audId r \<or> filmId u \<noteq> filmId r"
  shows "source u = Override \<and> rowId u = dynRowId (audId u) (filmId u)"
proof (cases "overrides s (sid r)")
  case None
  then have "u = r" using assms(1) by (simp add: applyOverride_def)
  then show ?thesis using assms(2) by simp
next
  case (Some ov)
  then obtain u0 where u0: "applyStart s ov r = Inr u0"
    and u: "u = regroup ov r (applyFilm s ov r (applyAud s ov u0))"
    using assms(1) by (auto simp: applyOverride_def split: sum.splits)
  define u1 where "u1 = applyAud s ov u0"
  define u2 where "u2 = applyFilm s ov r u1"
  have f0: "audId u0 = audId r" "filmId u0 = filmId r" using applyStart_fields [OF u0] by simp_all
  have a1: "audId u1 = (if truthyI (ov_audId ov) then ov_audId ov else audId r)"
    and f1: "filmId u1 = filmId r"
    using applyAud_fields [of s ov u0] f0 by (simp_all add: u1_def)
  have a2: "audId u2 = audId u1" using applyFilm_fields [of s ov r u1] by (simp add: u2_def)
  have f2: "filmId u2 = filmId r
            \<or> (truthyS (ov_filmId ov) \<and> ov_filmId ov \<noteq> filmId r \<and> truthyS (filmId u2))"
    unfolding u2_def using applyFilm_filmId [OF f1] .
  have uu: "u = regroup ov r u2" by (simp add: u u1_def u2_def)
  have au: "audId u = audId u2" and fu: "filmId u = filmId u2"
    using regroup_fields [of ov r u2] by (simp_all add: uu)
  have cond: "(truthyI (ov_audId ov) \<and> ov_audId ov \<noteq> audId r)
         \<or> (truthyS (ov_filmId ov) \<and> ov_filmId ov \<noteq> filmId r)"
  proof (cases "audId u \<noteq> audId r")
    case True
    then show ?thesis using au a2 a1 by (auto split: if_splits)
  next
    case False
    then have "filmId u2 \<noteq> filmId r" using assms(2) fu by simp
    then show ?thesis using f2 by blast
  qed
  have dA: "(if truthyI (audId u2) then audId u2 else audId r) = audId u2"
    using a2 a1 by (auto split: if_splits)
  have dF: "(if truthyS (filmId u2) then filmId u2 else filmId r) = filmId u2"
    using f2 by auto
  have "source u = Override \<and> rowId u = dynRowId (audId u2) (filmId u2)"
    using cond dA dF by (simp add: uu regroup_def Let_def)
  then show ?thesis using au fu by simp
qed

lemma applyOverride_sid: "applyOverride s r = Inr u \<Longrightarrow> sid u = sid r"
proof (cases "overrides s (sid r)")
  case None
  assume "applyOverride s r = Inr u"
  then have "u = r" using None by (simp add: applyOverride_def)
  then show ?thesis by simp
next
  case (Some ov)
  assume "applyOverride s r = Inr u"
  then obtain u0 where u0: "applyStart s ov r = Inr u0"
    and u: "u = regroup ov r (applyFilm s ov r (applyAud s ov u0))"
    using Some by (auto simp: applyOverride_def split: sum.splits)
  show ?thesis
    using applyStart_fields [OF u0] applyAud_fields [of s ov u0]
      applyFilm_fields [of s ov r "applyAud s ov u0"]
      regroup_fields [of ov r "applyFilm s ov r (applyAud s ov u0)"]
    by (simp add: u)
qed

lemma getAllShows_member:
  assumes "getAllShows s = Inr xs" and "u \<in> set xs"
  shows "\<exists>r \<in> set (rawShows s). \<not> truthyB (hiddenShows s (sid r)) \<and> applyOverride s r = Inr u"
proof -
  from assms(1) obtain mapped where m: "mappedShows s = Inr mapped"
    and xs: "xs = dedup {} (sort_key start mapped)"
    by (auto simp: getAllShows_def split: sum.splits)
  have "u \<in> set mapped" using assms(2) dedup_subset [of "{}" "sort_key start mapped"] xs by auto
  from mapE_member [OF m [unfolded mappedShows_def] this] show ?thesis by auto
qed

text \<open>
  C5. Every resolved show comes from a raw (generated or manual) show with the same id by
  applying its override; when the resolved auditorium or film differs from that base
  show's, the resolved show has source Override and its row id is the synthetic id built
  from the destination (audId, filmId) pair alone, which differs from the base row id
  (row ids of the application start with "PRB-" or "EX-", never with "OV-").
\<close>

theorem override_regrouping:
  assumes "getAllShows s = Inr xs" and "u \<in> set xs"
  shows "\<exists>r \<in> set (rawShows s). sid r = sid u \<and> applyOverride s r = Inr u
           \<and> (audId u \<noteq> audId r \<or> filmId u \<noteq> filmId r \<longrightarrow>
                source u = Override \<and> rowId u = dynRowId (audId u) (filmId u)
                \<and> (take 3 (rowId r) \<noteq> ''OV-'' \<longrightarrow> rowId u \<noteq> rowId r))"
proof -
  from getAllShows_member [OF assms] obtain r where r: "r \<in> set (rawShows s)"
    and ap: "applyOverride s r = Inr u" by blast
  have sid: "sid r = sid u" using applyOverride_sid [OF ap] by simp
  have "source u = Override \<and> rowId u = dynRowId (audId u) (filmId u)
        \<and> (take 3 (rowId r) \<noteq> ''OV-'' \<longrightarrow> rowId u \<noteq> rowId r)"
    if ch: "audId u \<noteq> audId r \<or> filmId u \<noteq> filmId r"
  proof -
    from applyOverride_regroups [OF ap ch]
    have 1: "source u = Override" and 2: "rowId u = dynRowId (audId u) (filmId u)" by simp_all
    have "take 3 (rowId u) = ''OV-''" by (simp add: 2 dynRowId_def)
    then show ?thesis using 1 2 by metis
  qed
  then show ?thesis using r ap sid by blast
qed

section \<open>Mutation entry points and the undo stack\<close>

lemma undoStack_save: "undoStack (save s) = undoStack s"
  by (simp add: save_def saveCurrentSchedule_def)

lemma findShow_Some: "findShow k shs = Some rec \<Longrightarrow> rec \<in> set shs \<and> sid rec = k"
  unfolding findShow_def by (induction shs) (auto split: if_splits)

lemma applyOverride_audId:
  assumes "applyOverride s r = Inr u" and "overrides s (sid r) = Some ov"
  shows "audId u = (if truthyI (ov_audId ov) then ov_audId ov else audId r)"
proof -
  from assms obtain u0 where u0: "applyStart s ov r = Inr u0"
    and u: "u = regroup ov r (applyFilm s ov r (applyAud s ov u0))"
    by (auto simp: applyOverride_def split: sum.splits)
  show ?thesis
    using applyStart_fields [OF u0] applyAud_fields [of s ov u0]
      applyFilm_fields [of s ov r "applyAud s ov u0"]
      regroup_fields [of ov r "applyFilm s ov r (applyAud s ov u0)"]
    by (simp add: u)
qed

lemma applyOverride_None: "applyOverride s r = Inr u \<Longrightarrow> overrides s (sid r) = None \<Longrightarrow> u = r"
  by (simp add: applyOverride_def)

lemma prevAudOf_effective:
  assumes "getAllShows s = Inr shs" and "findShow showId shs = Some rec"
  shows "prevAudOf s showId rec = audId rec"
proof -
  from findShow_Some [OF assms(2)] have mem: "rec \<in> set shs" and k: "sid rec = showId" by simp_all
  from getAllShows_member [OF assms(1) mem] obtain r where ap: "applyOverride s r = Inr rec" by blast
  have sr: "sid r = showId" using applyOverride_sid [OF ap] k by simp
  show ?thesis
  proof (cases "overrides s showId")
    case None
    then show ?thesis by (simp add: prevAudOf_def)
  next
    case (Some ov)
    then have "audId rec = (if truthyI (ov_audId ov) then ov_audId ov else audId r)"
      using applyOverride_audId [OF ap] sr by simp
    then show ?thesis using Some by (simp add: prevAudOf_def)
  qed
qed

lemma updateShowStart_pushes:
  assumes "getAllShows s = Inr shs" and "findShow showId shs = Some rec"
  shows "\<exists>s' e. updateShowStart s showId hm = Inr s' \<and> undoStack s' = undoStack s @ [e]"
  using assms
  by (simp add: updateShowStart_def Let_def undoStack_save pushUndo_def)

lemma updateShowAud_same:
  assumes "getAllShows s = Inr shs" and "findShow showId shs = Some rec"
    and "audId rec = Some a"
  shows "updateShowAud s showId (Some a) = Inr s"
  using assms prevAudOf_effective [OF assms(1,2)]
  by (simp add: updateShowAud_def Let_def)

lemma updateShowAud_other:
  assumes "getAllShows s = Inr shs" and "findShow showId shs = Some rec"
    and "Some a \<noteq> audId rec"
  shows "\<exists>s'. updateShowAud s showId (Some a) = Inr s'
            \<and> undoStack s' = undoStack s @ [MoveAudE showId (audId rec)]"
  using assms prevAudOf_effective [OF assms(1,2)]
  by (simp add: updateShowAud_def Let_def undoStack_save pushUndo_def)

lemma updateShowAud_clear:
  assumes "getAllShows s = Inr shs" and "findShow showId shs = Some rec"
  shows "updateShowAud s showId None = Inr s
         \<or> (\<exists>s'. updateShowAud s showId None = Inr s'
            \<and> undoStack s' = undoStack s @ [MoveAudE showId (audId rec)])"
  using assms prevAudOf_effective [OF assms(1,2)]
  by (simp add: updateShowAud_def Let_def undoStack_save pushUndo_def split: option.splits)


lemma applyOverride_filmId:
  assumes "applyOverride s r = Inr u" and "overrides s (sid r) = Some ov"
  shows "filmId u =
     (if truthyS (ov_filmId ov) \<and> ov_filmId ov \<noteq> filmId r
      then (case filmById s (ov_filmId ov) of Some f \<Rightarrow> Some (f_id f) | None \<Rightarrow> filmId r)
      else filmId r)"
proof -
  from assms obtain u0 where u0: "applyStart s ov r = Inr u0"
    and u: "u = regroup ov r (applyFilm s ov r (applyAud s ov u0))"
    by (auto simp: applyOverride_def split: sum.splits)
  have "filmId (applyAud s ov u0) = filmId r"
    using applyStart_fields [OF u0] applyAud_fields [of s ov u0] by simp
  then have "filmId (applyFilm s ov r (applyAud s ov u0)) =
     (if truthyS (ov_filmId ov) \<and> ov_filmId ov \<noteq> filmId r
      then (case filmById s (ov_filmId ov) of Some f \<Rightarrow> Some (f_id f) | None \<Rightarrow> filmId r)
      else filmId r)"
    by (simp add: applyFilm_def split: option.splits)
  then show ?thesis
    using regroup_fields [of ov r "applyFilm s ov r (applyAud s ov u0)"] by (simp add: u)
qed

lemma prevFilmOf_effective:
  assumes "getAllShows s = Inr shs" and "findShow showId shs = Some rec"
    and "case overrides s showId of None \<Rightarrow> True
         | Some ov \<Rightarrow> \<not> truthyS (ov_filmId ov) \<or> filmById s (ov_filmId ov) \<noteq> None"
  shows "prevFilmOf s showId rec = filmId rec"
proof -
  from findShow_Some [OF assms(2)] have mem: "rec \<in> set shs" and k: "sid rec = showId" by simp_all
  from getAllShows_member [OF assms(1) mem] obtain r where ap: "applyOverride s r = Inr rec" by blast
  have sr: "sid r = showId" using applyOverride_sid [OF ap] k by simp
  show ?thesis
  proof (cases "overrides s showId")
    case None
    then show ?thesis by (simp add: prevFilmOf_def)
  next
    case (Some ov)
    have eff: "filmId rec =
     (if truthyS (ov_filmId ov) \<and> ov_filmId ov \<noteq> filmId r
      then (case filmById s (ov_filmId ov) of Some f \<Rightarrow> Some (f_id f) | None \<Rightarrow> filmId r)
      else filmId r)"
      using applyOverride_filmId [OF ap] sr Some by simp
    show ?thesis
    proof (cases "truthyS (ov_filmId ov)")
      case False
      then show ?thesis using Some by (simp add: prevFilmOf_def)
    next
      case True
      then obtain k where kk: "ov_filmId ov = Some k"
        by (auto simp: truthyS_def split: option.splits)
      from assms(3) Some True obtain f where f: "filmById s (ov_filmId ov) = Some f" by auto
      have "f_id f = k" using f kk filmById_id by simp
      then have "filmId rec = ov_filmId ov" using eff f kk True by auto
      then show ?thesis using Some True by (simp add: prevFilmOf_def)
    qed
  qed
qed

lemma updateShowFilm_same:
  assumes "getAllShows s = Inr shs" and "findShow showId shs = Some rec"
    and "f \<noteq> []" and "prevFilmOf s showId rec = Some f"
  shows "updateShowFilm s showId (Some f) = Inr s"
  using assms by (simp add: updateShowFilm_def Let_def)

lemma updateShowFilm_other:
  assumes "getAllShows s = Inr shs" and "findShow showId shs = Some rec"
    and "f \<noteq> []" and "prevFilmOf s showId rec \<noteq> Some f"
  shows "\<exists>s'. updateShowFilm s showId (Some f) = Inr s'
            \<and> undoStack s' = undoStack s @ [EditFilmE showId (prevFilmOf s showId rec)]"
proof -
  have ne: "Some f \<noteq> prevFilmOf s showId rec" using assms(4) by auto
  show ?thesis
    using assms(1,2,3) ne
    by (simp add: updateShowFilm_def Let_def undoStack_save pushUndo_def split: option.splits)
qed

lemma updateShowFilm_clear:
  assumes "getAllShows s = Inr shs" and "findShow showId shs = Some rec"
  shows "updateShowFilm s showId None = Inr s
         \<or> (\<exists>s'. updateShowFilm s showId None = Inr s'
            \<and> undoStack s' = undoStack s @ [EditFilmE showId (prevFilmOf s showId rec)])"
  using assms
  by (simp add: updateShowFilm_def Let_def undoStack_save pushUndo_def split: option.splits)

text \<open>
  What the three entry points record on an existing show: updateShowStart pushes exactly
  one UndoEntry on every call; updateShowAud and updateShowFilm called with a value leave
  the state unchanged when the value equals the show's current assignment and otherwise
  push exactly one UndoEntry; a clearing call pushes one UndoEntry or leaves the state
  unchanged.
\<close>

theorem mutation_undo_entries:
  assumes "getAllShows s = Inr shs" and "findShow showId shs = Some rec"
  shows "(\<exists>s' e. updateShowStart s showId hm = Inr s' \<and> undoStack s' = undoStack s @ [e])
    \<and> (audId rec = Some a \<longrightarrow> updateShowAud s showId (Some a) = Inr s)
    \<and> (audId rec \<noteq> Some a \<longrightarrow>
          (\<exists>s'. updateShowAud s showId (Some a) = Inr s'
             \<and> undoStack s' = undoStack s @ [MoveAudE showId (audId rec)]))
    \<and> (updateShowAud s showId None = Inr s
          \<or> (\<exists>s'. updateShowAud s showId None = Inr s'
             \<and> undoStack s' = undoStack s @ [MoveAudE showId (audId rec)]))
    \<and> (f \<noteq> [] \<and> prevFilmOf s showId rec = Some f \<longrightarrow> updateShowFilm s showId (Some f) = Inr s)
    \<and> (f \<noteq> [] \<and> prevFilmOf s showId rec \<noteq> Some f \<longrightarrow>
          (\<exists>s'. updateShowFilm s showId (Some f) = Inr s'
             \<and> undoStack s' = undoStack s @ [EditFilmE showId (prevFilmOf s showId rec)]))
    \<and> (updateShowFilm s showId None = Inr s
          \<or> (\<exists>s'. updateShowFilm s showId None = Inr s'
             \<and> undoStack s' = undoStack s @ [EditFilmE showId (prevFilmOf s showId rec)]))
    \<and> ((case overrides s showId of None \<Rightarrow> True
          | Some ov \<Rightarrow> \<not> truthyS (ov_filmId ov) \<or> filmById s (ov_filmId ov) \<noteq> None)
         \<longrightarrow> prevFilmOf s showId rec = filmId rec)"
proof -
  note h = assms
  have 1: "\<exists>s' e. updateShowStart s showId hm = Inr s' \<and> undoStack s' = undoStack s @ [e]"
    by (rule updateShowStart_pushes [OF h])
  have 2: "audId rec = Some a \<longrightarrow> updateShowAud s showId (Some a) = Inr s"
    using updateShowAud_same [OF h] by blast
  have 3: "audId rec \<noteq> Some a \<longrightarrow>
          (\<exists>s'. updateShowAud s showId (Some a) = Inr s'
             \<and> undoStack s' = undoStack s @ [MoveAudE showId (audId rec)])"
    using updateShowAud_other [OF h, of a] by auto
  have 4: "updateShowAud s showId None = Inr s
          \<or> (\<exists>s'. updateShowAud s showId None = Inr s'
             \<and> undoStack s' = undoStack s @ [MoveAudE showId (audId rec)])"
    by (rule updateShowAud_clear [OF h])
  have 5: "f \<noteq> [] \<and> prevFilmOf s showId rec = Some f \<longrightarrow> updateShowFilm s showId (Some f) = Inr s"
    using updateShowFilm_same [OF h] by blast
  have 6: "f \<noteq> [] \<and> prevFilmOf s showId rec \<noteq> Some f \<longrightarrow>
          (\<exists>s'. updateShowFilm s showId (Some f) = Inr s'
             \<and> undoStack s' = undoStack s @ [EditFilmE showId (prevFilmOf s showId rec)])"
    using updateShowFilm_other [OF h] by blast
  have 7: "updateShowFilm s showId None = Inr s
          \<or> (\<exists>s'. updateShowFilm s showId None = Inr s'
             \<and> undoStack s' = undoStack s @ [EditFilmE showId (prevFilmOf s showId rec)])"
    by (rule updateShowFilm_clear [OF h])
  have 8: "(case overrides s showId of None \<Rightarrow> True
          | Some ov \<Rightarrow> \<not> truthyS (ov_filmId ov) \<or> filmById s (ov_filmId ov) \<noteq> None)
         \<longrightarrow> prevFilmOf s showId rec = filmId rec"
    using prevFilmOf_effective [OF h] by blast
  from 1 2 3 4 5 6 7 8 show ?thesis by (intro conjI)
qed


section \<open>Bounds on the recurrence stepping\<close>

lemma preTimesLoop_length: "length (preTimesLoop w c t n) \<le> 50 - n"
proof (induction w c t n rule: preTimesLoop.induct)
  case (1 w c t n)
  show ?case
  proof (cases "w \<le> t \<and> n < 50")
    case True
    then have ih: "length (preTimesLoop w c (t - c) (n + 1)) \<le> 50 - (n + 1)" using 1 by simp
    have eq: "preTimesLoop w c t n = t # preTimesLoop w c (t - c) (n + 1)"
      using True by (subst preTimesLoop.simps) simp
    from True have "n < 50" by simp
    with ih show ?thesis unfolding eq by simp
  next
    case False
    then show ?thesis by (subst preTimesLoop.simps) auto
  qed
qed

lemma postTimesLoop_length: "length (postTimesLoop w c t n) \<le> 50 - n"
proof (induction w c t n rule: postTimesLoop.induct)
  case (1 w c t n)
  show ?case
  proof (cases "t \<le> w \<and> n < 50")
    case True
    then have ih: "length (postTimesLoop w c (t + c) (n + 1)) \<le> 50 - (n + 1)" using 1 by simp
    have eq: "postTimesLoop w c t n = t # postTimesLoop w c (t + c) (n + 1)"
      using True by (subst postTimesLoop.simps) simp
    from True have "n < 50" by simp
    with ih show ?thesis unfolding eq by simp
  next
    case False
    then show ?thesis by (subst postTimesLoop.simps) auto
  qed
qed

lemma preLoop_length: "length (preLoop rw f a w1 p c n) \<le> nat n"
proof (induction rw f a w1 p c n rule: preLoop.induct)
  case (1 rw f a w1 p c i)
  show ?case
  proof (cases "1 \<le> i")
    case True
    have ih: "length (preLoop rw f a w1 p c (i - 1)) \<le> nat (i - 1)"
      using 1 [OF True refl] by (cases "addMins p (- i * c) < w1") simp_all
    have "length (preLoop rw f a w1 p c i) \<le> Suc (length (preLoop rw f a w1 p c (i - 1)))"
      using True by (subst preLoop.simps) (simp add: Let_def)
    with ih True show ?thesis by linarith
  next
    case False
    then show ?thesis by (subst preLoop.simps) simp
  qed
qed

lemma postLoop_length: "length (postLoop rw f a w2 p c pc i) \<le> nat (pc + 1 - i)"
proof (induction rw f a w2 p c pc i rule: postLoop.induct)
  case (1 rw f a w2 p c pc i)
  show ?case
  proof (cases "i \<le> pc")
    case True
    have ih: "length (postLoop rw f a w2 p c pc (i + 1)) \<le> nat (pc + 1 - (i + 1))"
      using 1 [OF True refl] by (cases "w2 < addMins p (i * c)") simp_all
    have "length (postLoop rw f a w2 p c pc i) \<le> Suc (length (postLoop rw f a w2 p c pc (i + 1)))"
      using True by (subst postLoop.simps) (simp add: Let_def)
    with ih True show ?thesis by linarith
  next
    case False
    then show ?thesis by (subst postLoop.simps) simp
  qed
qed

lemma buildRowShowtimes_length:
  "length (buildRowShowtimes s rw) \<le>
     nat ((dtFromHM (the (r_primeHM rw)) - windowFirst s) div cycleMinutes (filmById s (r_filmId rw)))
     + 1
     + nat ((windowLast s - dtFromHM (the (r_primeHM rw))) div cycleMinutes (filmById s (r_filmId rw)))"
proof (cases "filmById s (r_filmId rw)")
  case None
  then show ?thesis by (simp add: buildRowShowtimes_def)
next
  case f: (Some f)
  show ?thesis
  proof (cases "audById s (r_audId rw)")
    case None
    then show ?thesis using f by (simp add: buildRowShowtimes_def)
  next
    case (Some a)
    show ?thesis
      using f Some
        preLoop_length [of rw f a "windowFirst s" "dtFromHM (the (r_primeHM rw))" "cycleMinutes (Some f)"
          "(dtFromHM (the (r_primeHM rw)) - windowFirst s) div cycleMinutes (Some f)"]
        postLoop_length [of rw f a "windowLast s" "dtFromHM (the (r_primeHM rw))" "cycleMinutes (Some f)"
          "(windowLast s - dtFromHM (the (r_primeHM rw))) div cycleMinutes (Some f)" 1]
      by (simp add: buildRowShowtimes_def Let_def diffMins_def)
  qed
qed

text \<open>
  C9 (as amended). The 50-step ceiling belongs to the pre/post time stepping of the prime
  page renderer: whatever the cycle, each direction collects at most 50 times. The
  generator buildRowShowtimes has no such ceiling; its two for statements count from
  preCount down to 1 and from 1 up to postCount and emit at most preCount pre-shows and at
  most postCount post-shows, so it terminates too (both are total functions here), with
  a bound given by the window and the cycle.
\<close>

theorem stepping_bounds:
  "length (preTimesLoop w1 c t 0) \<le> 50
   \<and> length (postTimesLoop w2 c t 0) \<le> 50
   \<and> length (renderPreTimes s rw) \<le> 50
   \<and> length (renderPostTimes s rw) \<le> 50
   \<and> length (preLoop rw f a w1 p c n) \<le> nat n
   \<and> length (postLoop rw f a w2 p c n 1) \<le> nat n
   \<and> length (buildRowShowtimes s rw) \<le>
        nat ((dtFromHM (the (r_primeHM rw)) - windowFirst s) div cycleMinutes (filmById s (r_filmId rw)))
        + 1
        + nat ((windowLast s - dtFromHM (the (r_primeHM rw))) div cycleMinutes (filmById s (r_filmId rw)))"
proof -
  have a: "length (preTimesLoop w c t 0) \<le> 50" for w c t
    using preTimesLoop_length [of w c t 0] by simp
  have b: "length (postTimesLoop w c t 0) \<le> 50" for w c t
    using postTimesLoop_length [of w c t 0] by simp
  have 3: "length (renderPreTimes s rw) \<le> 50"
    by (simp add: renderPreTimes_def Let_def a)
  have 4: "length (renderPostTimes s rw) \<le> 50"
    by (simp add: renderPostTimes_def Let_def b)
  have 6: "length (postLoop rw f a w2 p c n 1) \<le> nat n"
    using postLoop_length [of rw f a w2 p c n 1] by simp
  from a b 3 4 preLoop_length 6 buildRowShowtimes_length show ?thesis by blast
qed


section \<open>Copying a schedule\<close>

lemma map_of_setKey: "map_of (setKey k v al) k' = (if k' = k then Some v else map_of al k')"
  by (induction al) auto

lemma length_setKey: "length (setKey k v al) \<le> length al + 1"
  by (induction al) auto

lemma map_of_copyTargets:
  "map_of (copyTargets src ts al) t =
     (if t \<in> set ts \<and> t \<noteq> [] then Some (copiedSnapshot src) else map_of al t)"
  by (induction ts arbitrary: al) (auto simp: map_of_setKey)

lemma length_copyTargets: "length (copyTargets src ts al) \<le> length al + length ts"
proof (induction ts arbitrary: al)
  case Nil
  then show ?case by simp
next
  case (Cons t ts)
  show ?case
  proof (cases "t = []")
    case True
    then show ?thesis using Cons [of al] by simp
  next
    case False
    have "length (copyTargets src ts (setKey t (copiedSnapshot src) al))
            \<le> length (setKey t (copiedSnapshot src) al) + length ts"
      by (rule Cons)
    also have "\<dots> \<le> length al + 1 + length ts"
      using length_setKey [of t "copiedSnapshot src" al] by simp
    finally show ?thesis using False by simp
  qed
qed

lemma map_of_filter_key:
  "map_of (filter (\<lambda>kv. Q (fst kv)) al) k = (if Q k then map_of al k else None)"
  by (induction al) auto

lemma map_of_prune:
  assumes "map_of (pruneOldSchedules al) k = Some v"
  shows "map_of al k = Some v"
proof (cases "length al \<le> 14")
  case True
  then show ?thesis using assms by (simp add: pruneOldSchedules_def)
next
  case False
  define D where "D = set (take (length al - 14) (sort (map fst al)))"
  have "pruneOldSchedules al = filter (\<lambda>kv. fst kv \<notin> D) al"
    using False by (simp add: pruneOldSchedules_def Let_def D_def)
  then have "map_of (filter (\<lambda>kv. fst kv \<notin> D) al) k = Some v" using assms by simp
  then have "(if k \<notin> D then map_of al k else None) = Some v"
    using map_of_filter_key [of "\<lambda>x. x \<notin> D" al k] by simp
  then show ?thesis by (simp split: if_splits)
qed

lemma prune_small: "length al \<le> 14 \<Longrightarrow> pruneOldSchedules al = al"
  by (simp add: pruneOldSchedules_def)

lemma length_prune: "length (pruneOldSchedules al) \<le> length al"
  by (simp add: pruneOldSchedules_def Let_def)

lemma length_saveCurrentSchedule:
  "length (scheduleByDate (saveCurrentSchedule s)) \<le> length (scheduleByDate s) + 1"
proof (cases "truthyS (currentDate s)")
  case False
  then show ?thesis by (simp add: saveCurrentSchedule_def)
next
  case True
  have "length (pruneOldSchedules (setKey (the (currentDate s)) (snapshotOf s) (scheduleByDate s)))
          \<le> length (setKey (the (currentDate s)) (snapshotOf s) (scheduleByDate s))"
    by (rule length_prune)
  also have "\<dots> \<le> length (scheduleByDate s) + 1" by (rule length_setKey)
  finally show ?thesis using True by (simp add: saveCurrentSchedule_def)
qed

lemma deepCopyManualShows_id: "deepCopyManualShows ms = ms"
  by (induction ms) (simp_all add: deepCopyManualShows_def)

lemma copiedSnapshot_fields:
  "sn_undoStack (copiedSnapshot src) = []
   \<and> sn_primeRows (copiedSnapshot src) = sn_primeRows src
   \<and> sn_extraRows (copiedSnapshot src) = sn_extraRows src
   \<and> sn_manualShows (copiedSnapshot src) = sn_manualShows src
   \<and> sn_overrides (copiedSnapshot src) = sn_overrides src
   \<and> sn_hiddenShows (copiedSnapshot src) = sn_hiddenShows src"
  by (simp add: copiedSnapshot_def deepCopyManualShows_id)

lemma save_lookup_other:
  assumes "currentDate x \<noteq> Some t"
    and "map_of (scheduleByDate (save x)) t = Some v"
  shows "map_of (scheduleByDate x) t = Some v"
proof (cases "truthyS (currentDate x)")
  case False
  then show ?thesis using assms(2) by (simp add: save_def saveCurrentSchedule_def)
next
  case True
  then obtain d where d: "currentDate x = Some d" by (auto simp: truthyS_def split: option.splits)
  have "map_of (pruneOldSchedules (setKey d (snapshotOf x) (scheduleByDate x))) t = Some v"
    using assms(2) True d by (simp add: save_def saveCurrentSchedule_def)
  then have "map_of (setKey d (snapshotOf x) (scheduleByDate x)) t = Some v"
    by (rule map_of_prune)
  then show ?thesis using assms(1) d by (simp add: map_of_setKey)
qed

lemma save_small:
  assumes "length (scheduleByDate x) + 1 \<le> 14" and "currentDate x \<noteq> Some t"
  shows "map_of (scheduleByDate (save x)) t = map_of (scheduleByDate x) t"
proof (cases "truthyS (currentDate x)")
  case False
  then show ?thesis by (simp add: save_def saveCurrentSchedule_def)
next
  case True
  then obtain d where d: "currentDate x = Some d" by (auto simp: truthyS_def split: option.splits)
  have "length (setKey d (snapshotOf x) (scheduleByDate x)) \<le> 14"
    using length_setKey [of d "snapshotOf x" "scheduleByDate x"] assms(1) by simp
  then have "pruneOldSchedules (setKey d (snapshotOf x) (scheduleByDate x))
             = setKey d (snapshotOf x) (scheduleByDate x)" by (rule prune_small)
  then show ?thesis using True d assms(2) by (simp add: save_def saveCurrentSchedule_def map_of_setKey)
qed

lemma save_lookup_empty:
  assumes "map_of (scheduleByDate (save x)) [] = Some v"
  shows "map_of (scheduleByDate x) [] = Some v"
proof (cases "currentDate x = Some []")
  case True
  then have "save x = x" by (simp add: save_def saveCurrentSchedule_def truthyS_def)
  then show ?thesis using assms by simp
next
  case False
  from save_lookup_other [OF False assms] show ?thesis .
qed

lemma currentDate_saveCurrentSchedule: "currentDate (saveCurrentSchedule s) = currentDate s"
  by (simp add: saveCurrentSchedule_def)

text \<open>
  C8 (as amended). Take a source date (fromDate, or the current date when fromDate is
  empty) that has a stored snapshot once the current schedule has been saved, and a
  non-empty target date from the list that is not the current date. If the target is
  stored after copySchedule, its snapshot is the copy of the source snapshot: empty
  undoStack, and primeRows, extraRows, manualShows, overrides and hiddenShows equal in
  value to the source's; it replaces whatever the target held. The target is stored
  unless retention pruning deleted it, which cannot happen while the stored dates and
  the targets together number at most 12. An empty-string target is skipped: nothing
  is written under the empty key.
\<close>

theorem copySchedule_targets:
  assumes src: "truthyS (if truthyS fromDate then fromDate else currentDate s)"
    and look: "map_of (scheduleByDate (saveCurrentSchedule s))
                 (the (if truthyS fromDate then fromDate else currentDate s)) = Some src"
    and t: "t \<in> set targetDates" and ne: "t \<noteq> []" and cur: "currentDate s \<noteq> Some t"
  shows "(\<forall>snap. map_of (scheduleByDate (copySchedule s fromDate targetDates)) t = Some snap
            \<longrightarrow> snap = copiedSnapshot src)
       \<and> (length (scheduleByDate s) + length targetDates + 2 \<le> 14 \<longrightarrow>
            map_of (scheduleByDate (copySchedule s fromDate targetDates)) t
              = Some (copiedSnapshot src))
       \<and> sn_undoStack (copiedSnapshot src) = []
       \<and> sn_primeRows (copiedSnapshot src) = sn_primeRows src
       \<and> sn_extraRows (copiedSnapshot src) = sn_extraRows src
       \<and> sn_manualShows (copiedSnapshot src) = sn_manualShows src
       \<and> sn_overrides (copiedSnapshot src) = sn_overrides src
       \<and> sn_hiddenShows (copiedSnapshot src) = sn_hiddenShows src
       \<and> (\<forall>snap. map_of (scheduleByDate (copySchedule s fromDate targetDates)) [] = Some snap
            \<longrightarrow> map_of (scheduleByDate s) [] = Some snap)"
proof -
  define s1 where "s1 = saveCurrentSchedule s"
  define x where "x = s1\<lparr>scheduleByDate := copyTargets src targetDates (scheduleByDate s1)\<rparr>"
  have tn: "targetDates \<noteq> []" using t by auto
  have cs: "copySchedule s fromDate targetDates = save x"
    using tn src look by (simp add: copySchedule_def Let_def s1_def x_def)
  have curx: "currentDate x \<noteq> Some t"
    using cur by (simp add: x_def s1_def currentDate_saveCurrentSchedule)
  have lx: "map_of (scheduleByDate x) t = Some (copiedSnapshot src)"
    using t ne by (simp add: x_def map_of_copyTargets)
  have 1: "snap = copiedSnapshot src"
    if "map_of (scheduleByDate (copySchedule s fromDate targetDates)) t = Some snap" for snap
  proof -
    from that have "map_of (scheduleByDate (save x)) t = Some snap" by (simp add: cs)
    from save_lookup_other [OF curx this] lx show ?thesis by simp
  qed
  have 2: "map_of (scheduleByDate (copySchedule s fromDate targetDates)) t
              = Some (copiedSnapshot src)"
    if b: "length (scheduleByDate s) + length targetDates + 2 \<le> 14"
  proof -
    have "length (scheduleByDate x) \<le> length (scheduleByDate s1) + length targetDates"
      by (simp add: x_def length_copyTargets)
    also have "\<dots> \<le> length (scheduleByDate s) + 1 + length targetDates"
      using length_saveCurrentSchedule [of s] by (simp add: s1_def)
    finally have "length (scheduleByDate x) + 1 \<le> 14" using b by simp
    from save_small [OF this curx] lx show ?thesis by (simp add: cs)
  qed
  have 3: "map_of (scheduleByDate s) [] = Some snap"
    if "map_of (scheduleByDate (copySchedule s fromDate targetDates)) [] = Some snap" for snap
  proof -
    from that have "map_of (scheduleByDate (save x)) [] = Some snap" by (simp add: cs)
    then have "map_of (scheduleByDate x) [] = Some snap" by (rule save_lookup_empty)
    then have "map_of (scheduleByDate s1) [] = Some snap"
      by (simp add: x_def map_of_copyTargets)
    then have "map_of (scheduleByDate (save s)) [] = Some snap"
      by (simp add: s1_def save_def)
    then show ?thesis by (rule save_lookup_empty)
  qed
  from 1 2 3 copiedSnapshot_fields [of src] show ?thesis by blast
qed


section \<open>Downtime analyzer\<close>

lemma normalizeDateForGap_rule:
  "normalizeDateForGap t = (if (t mod 1440) div 60 < 5 then t + 1440 else t)"
  by (simp add: normalizeDateForGap_def getHours_def)

lemma lateIssue_tm:
  "map (\<lambda>i. (i_type i, i_minutes i)) (lateIssue w a e) =
     (if 105 \<le> normalizeDateForGap (s_start e) - normalizeDateForGap w
      then [(Late, normalizeDateForGap (s_start e) - normalizeDateForGap w)] else [])"
  by (simp add: lateIssue_def Let_def FIT_SLOT_MIN_def)

lemma gapLoop_tm:
  "map (\<lambda>i. (i_type i, i_minutes i)) (gapLoop a L n) =
     concat (map (\<lambda>j. let gap = normalizeDateForGap (s_start (L ! (j + 1)))
                                  - normalizeDateForGap (s_end (L ! j))
                        in if 90 \<le> gap then [(Huge, gap)]
                           else if 45 \<le> gap then [(Gap, gap)] else [])
                 [n..<length L - 1])"
proof (induction a L n rule: gapLoop.induct)
  case (1 a L n)
  show ?case
  proof (cases "int n < int (length L) - 1")
    case True
    then have lt: "n < length L - 1" by linarith
    have up: "[n..<length L - 1] = n # [n + 1..<length L - 1]"
      using lt by (simp add: upt_conv_Cons)
    have ih: "map (\<lambda>i. (i_type i, i_minutes i)) (gapLoop a L (n + 1)) =
     concat (map (\<lambda>j. let gap = normalizeDateForGap (s_start (L ! (j + 1)))
                                  - normalizeDateForGap (s_end (L ! j))
                        in if 90 \<le> gap then [(Huge, gap)]
                           else if 45 \<le> gap then [(Gap, gap)] else [])
                 [n + 1..<length L - 1])"
      using 1 [OF True refl refl refl] .
    have step: "gapLoop a L n =
        (let gapMin = normalizeDateForGap (s_start (L ! (n + 1)))
                        - normalizeDateForGap (s_end (L ! n))
         in (if GAP_THRESHOLD_MIN \<le> gapMin
             then [\<lparr>i_audName = a,
                     i_type = (if GAP_HUGE_MIN \<le> gapMin then Huge else Gap),
                     i_message = a @ '': gap from '' @ to12 (s_end (L ! n))
                        @ '' to '' @ to12 (s_start (L ! (n + 1)))
                        @ '' ('' @ formatDuration gapMin @ '')'',
                     i_minutes = gapMin\<rparr>]
             else []))
        @ gapLoop a L (n + 1)"
      using True by (subst gapLoop.simps) (simp add: Let_def)
    have "map (\<lambda>i. (i_type i, i_minutes i)) (gapLoop a L n) =
        (let gap = normalizeDateForGap (s_start (L ! (n + 1)))
                        - normalizeDateForGap (s_end (L ! n))
         in if 90 \<le> gap then [(Huge, gap)]
            else if 45 \<le> gap then [(Gap, gap)] else [])
        @ map (\<lambda>i. (i_type i, i_minutes i)) (gapLoop a L (n + 1))"
      unfolding step by (simp add: Let_def GAP_THRESHOLD_MIN_def GAP_HUGE_MIN_def)
    then show ?thesis
      unfolding up ih by simp
  next
    case False
    then have "\<not> n < length L - 1" by linarith
    then have "[n..<length L - 1] = []" by simp
    then show ?thesis using False by (subst gapLoop.simps) simp
  qed
qed

lemma sortedSlots_perm:
  "mset (sortedSlots grp) = mset grp
   \<and> sorted (map (\<lambda>e. normalizeDateForGap (s_start e)) (sortedSlots grp))"
  by (simp add: sortedSlots_def)

lemma audIssues_tm:
  "map (\<lambda>i. (i_type i, i_minutes i)) (audIssues w k grp) =
     (if sortedSlots grp = [] then []
      else (if 105 \<le> normalizeDateForGap (s_start (hd (sortedSlots grp))) - normalizeDateForGap w
            then [(Late, normalizeDateForGap (s_start (hd (sortedSlots grp))) - normalizeDateForGap w)]
            else [])
           @ concat (map (\<lambda>j. let gap = normalizeDateForGap (s_start (sortedSlots grp ! (j + 1)))
                                        - normalizeDateForGap (s_end (sortedSlots grp ! j))
                              in if 90 \<le> gap then [(Huge, gap)]
                                 else if 45 \<le> gap then [(Gap, gap)] else [])
                       [0..<length (sortedSlots grp) - 1]))"
proof (cases "sortedSlots grp")
  case Nil
  then show ?thesis by (simp add: audIssues_def)
next
  case (Cons e es)
  have "map (\<lambda>i. (i_type i, i_minutes i)) (audIssues w k grp) =
      map (\<lambda>i. (i_type i, i_minutes i))
        (lateIssue w (if s_audName e \<noteq> [] then s_audName e else ''Aud '' @ show_int k) e)
      @ map (\<lambda>i. (i_type i, i_minutes i))
        (gapLoop (if s_audName e \<noteq> [] then s_audName e else ''Aud '' @ show_int k) (sortedSlots grp) 0)"
    using Cons by (simp add: audIssues_def Let_def)
  then show ?thesis
    unfolding lateIssue_tm gapLoop_tm using Cons by simp
qed

lemma map_of_pushSlot:
  "map_of (pushSlot k e al) k' =
     (if k' = k then Some ((case map_of al k of None \<Rightarrow> [] | Some l \<Rightarrow> l) @ [e])
      else map_of al k')"
  by (induction al) auto

lemma keys_pushSlot: "set (map fst (pushSlot k e al)) = insert k (set (map fst al))"
proof (induction al)
  case Nil
  then show ?case by simp
next
  case (Cons p al)
  obtain k' l where p: "p = (k', l)" by (cases p)
  show ?case
  proof (cases "k' = k")
    case True
    then show ?thesis using p by auto
  next
    case False
    have "set (map fst (pushSlot k e (p # al))) = insert k' (set (map fst (pushSlot k e al)))"
      using False p by simp
    also have "\<dots> = insert k' (insert k (set (map fst al)))" using Cons by simp
    finally show ?thesis using p by auto
  qed
qed

lemma distinct_pushSlot:
  "distinct (map fst al) \<Longrightarrow> distinct (map fst (pushSlot k e al))"
proof (induction al)
  case Nil
  then show ?case by simp
next
  case (Cons p al)
  obtain k' l where p: "p = (k', l)" by (cases p)
  show ?case
  proof (cases "k' = k")
    case True
    then show ?thesis using Cons.prems p by simp
  next
    case False
    have "k' \<notin> set (map fst (pushSlot k e al))"
      using Cons.prems p False by (simp add: keys_pushSlot del: set_map)
    then show ?thesis using Cons p False by simp
  qed
qed

lemma groupByAud_snoc: "groupByAud (shs @ [r]) = groupStep (groupByAud shs) r"
  by (simp add: groupByAud_def)

lemma groupByAud_keys:
  "set (map fst (groupByAud shs)) = {k. k \<noteq> 0 \<and> (\<exists>r \<in> set shs. audId r = Some k)}"
proof (induction shs rule: rev_induct)
  case Nil
  then show ?case by (simp add: groupByAud_def)
next
  case (snoc r shs)
  show ?case
  proof (cases "truthyI (audId r)")
    case False
    then have "groupByAud (shs @ [r]) = groupByAud shs"
      by (simp add: groupByAud_snoc groupStep_def)
    moreover have "\<And>k. k \<noteq> 0 \<Longrightarrow> audId r \<noteq> Some k"
      using False by (auto simp: truthyI_def)
    ultimately show ?thesis using snoc by auto
  next
    case True
    then obtain a where a: "audId r = Some a" "a \<noteq> 0"
      by (auto simp: truthyI_def split: option.splits)
    have "set (map fst (groupByAud (shs @ [r]))) = insert a (set (map fst (groupByAud shs)))"
      using True a by (simp add: groupByAud_snoc groupStep_def keys_pushSlot del: set_map)
    then show ?thesis using snoc a by auto
  qed
qed

lemma groupByAud_distinct: "distinct (map fst (groupByAud shs))"
proof (induction shs rule: rev_induct)
  case Nil
  then show ?case by (simp add: groupByAud_def)
next
  case (snoc r shs)
  then show ?case
    by (simp add: groupByAud_snoc groupStep_def distinct_pushSlot del: distinct_map)
qed

lemma groupByAud_lookup:
  "map_of (groupByAud shs) k =
     (if k \<noteq> 0 \<and> (\<exists>r \<in> set shs. audId r = Some k)
      then Some (map slotOf (filter (\<lambda>r. audId r = Some k) shs)) else None)"
proof (induction shs rule: rev_induct)
  case Nil
  then show ?case by (simp add: groupByAud_def)
next
  case (snoc r shs)
  show ?case
  proof (cases "truthyI (audId r)")
    case False
    then have g: "groupByAud (shs @ [r]) = groupByAud shs"
      by (simp add: groupByAud_snoc groupStep_def)
    have n: "k \<noteq> 0 \<Longrightarrow> audId r \<noteq> Some k"
      using False by (auto simp: truthyI_def)
    show ?thesis
    proof (cases "k = 0")
      case True
      then show ?thesis using snoc g by simp
    next
      case k: False
      then have "audId r \<noteq> Some k" by (rule n)
      then show ?thesis using snoc g k by simp
    qed
  next
    case True
    then obtain a where a: "audId r = Some a" "a \<noteq> 0"
      by (auto simp: truthyI_def split: option.splits)
    have g: "groupByAud (shs @ [r]) = pushSlot a (slotOf r) (groupByAud shs)"
      using True a by (simp add: groupByAud_snoc groupStep_def)
    show ?thesis
    proof (cases "k = a")
      case k: True
      show ?thesis
      proof (cases "\<exists>r \<in> set shs. audId r = Some a")
        case e: True
        then show ?thesis using snoc g k a by (simp add: map_of_pushSlot)
      next
        case e: False
        then have "filter (\<lambda>r. audId r = Some a) shs = []" by (simp add: filter_empty_conv)
        then show ?thesis using snoc g k a e by (simp add: map_of_pushSlot)
      qed
    next
      case k: False
      then have "audId r \<noteq> Some k" using a by simp
      then show ?thesis using snoc g k by (simp add: map_of_pushSlot)
    qed
  qed
qed

lemma objectKeys_set: "set (objectKeys al) = set (map fst al)"
  by (auto simp: objectKeys_def Let_def)

lemma objectKeys_distinct: "distinct (map fst al) \<Longrightarrow> distinct (objectKeys al)"
  by (auto simp: objectKeys_def Let_def)

lemma slotOf_fields: "slotOf = (\<lambda>r. \<lparr>s_start = start r, s_end = endT r, s_audName = audName r\<rparr>)"
  by (rule ext) (simp add: slotOf_def)

lemma issues_by_group:
  "map (\<lambda>k. case map_of (groupByAud shs) k of
               None \<Rightarrow> []
             | Some list \<Rightarrow> audIssues w k list) (objectKeys (groupByAud shs))
   = map (\<lambda>k. audIssues w k
             (map (\<lambda>r. \<lparr>s_start = start r, s_end = endT r, s_audName = audName r\<rparr>)
                  (filter (\<lambda>r. audId r = Some k) shs)))
       (objectKeys (groupByAud shs))"
proof (rule map_cong [OF refl])
  fix k
  assume "k \<in> set (objectKeys (groupByAud shs))"
  then have "k \<in> {k. k \<noteq> 0 \<and> (\<exists>r \<in> set shs. audId r = Some k)}"
    using objectKeys_set [of "groupByAud shs"] groupByAud_keys [of shs] by simp
  then have "map_of (groupByAud shs) k = Some (map slotOf (filter (\<lambda>r. audId r = Some k) shs))"
    using groupByAud_lookup [of shs k] by simp
  then show "(case map_of (groupByAud shs) k of None \<Rightarrow> []
             | Some list \<Rightarrow> audIssues w k list)
     = audIssues w k
             (map (\<lambda>r. \<lparr>s_start = start r, s_end = endT r, s_audName = audName r\<rparr>)
                  (filter (\<lambda>r. audId r = Some k) shs))"
    by (simp add: slotOf_fields)
qed


text \<open>
  C6. When resolution returns, the analyzer's result is a rearrangement, in descending
  order of minutes, of the issues of each auditorium id that occurs in the resolved list
  (shows without an auditorium are skipped), where the issues of an auditorium are
  computed from the slots (start, end, name) of exactly the resolved shows in that
  auditorium. Normalizing moves an instant whose hour is
  before 5 to the next day. For one auditorium, with its slots sorted by normalized
  start: a Late issue is emitted exactly when the normalized first start minus the
  normalized window start is at least 105; each consecutive pair contributes a Huge
  issue exactly when its normalized gap is at least 90, a Gap issue exactly when the gap
  is at least 45 and below 90, and nothing otherwise.
\<close>

theorem computeFlaggedIssues_spec:
  assumes "computeFlaggedIssues s = Inr out"
  shows "(\<exists>shs. getAllShows s = Inr shs
            \<and> set (objectKeys (groupByAud shs)) = {k. k \<noteq> 0 \<and> (\<exists>r \<in> set shs. audId r = Some k)}
            \<and> distinct (objectKeys (groupByAud shs))
            \<and> mset out =
                mset (concat (map (\<lambda>k. audIssues
                        (dtFromHM (if firstShowHM s \<noteq> [] then firstShowHM s else ''07:00''))
                        k (map (\<lambda>r. \<lparr>s_start = start r, s_end = endT r, s_audName = audName r\<rparr>)
                               (filter (\<lambda>r. audId r = Some k) shs)))
                      (objectKeys (groupByAud shs)))))
     \<and> sorted (map (\<lambda>i. - i_minutes i) out)
     \<and> normalizeDateForGap t = (if (t mod 1440) div 60 < 5 then t + 1440 else t)
     \<and> mset (sortedSlots grp) = mset grp
     \<and> sorted (map (\<lambda>e. normalizeDateForGap (s_start e)) (sortedSlots grp))
     \<and> map (\<lambda>i. (i_type i, i_minutes i)) (audIssues w k grp) =
         (if sortedSlots grp = [] then []
          else (if 105 \<le> normalizeDateForGap (s_start (hd (sortedSlots grp))) - normalizeDateForGap w
                then [(Late, normalizeDateForGap (s_start (hd (sortedSlots grp))) - normalizeDateForGap w)]
                else [])
               @ concat (map (\<lambda>j. let gap = normalizeDateForGap (s_start (sortedSlots grp ! (j + 1)))
                                            - normalizeDateForGap (s_end (sortedSlots grp ! j))
                                  in if 90 \<le> gap then [(Huge, gap)]
                                     else if 45 \<le> gap then [(Gap, gap)] else [])
                           [0..<length (sortedSlots grp) - 1]))"
proof -
  from assms obtain shs where g: "getAllShows s = Inr shs"
    and out0: "out = sort_key (\<lambda>i. - i_minutes i)
        (concat (map (\<lambda>k. case map_of (groupByAud shs) k of
                             None \<Rightarrow> []
                           | Some list \<Rightarrow> audIssues
                               (dtFromHM (if firstShowHM s \<noteq> [] then firstShowHM s else ''07:00''))
                               k list)
                      (objectKeys (groupByAud shs))))"
    by (auto simp: computeFlaggedIssues_def Let_def split: sum.splits)
  have out: "out = sort_key (\<lambda>i. - i_minutes i)
        (concat (map (\<lambda>k. audIssues
                        (dtFromHM (if firstShowHM s \<noteq> [] then firstShowHM s else ''07:00''))
                        k (map (\<lambda>r. \<lparr>s_start = start r, s_end = endT r, s_audName = audName r\<rparr>)
                               (filter (\<lambda>r. audId r = Some k) shs)))
                      (objectKeys (groupByAud shs))))"
    unfolding out0 issues_by_group ..
  have ks: "set (objectKeys (groupByAud shs)) = {k. k \<noteq> 0 \<and> (\<exists>r \<in> set shs. audId r = Some k)}"
    using objectKeys_set [of "groupByAud shs"] groupByAud_keys [of shs] by simp
  have kd: "distinct (objectKeys (groupByAud shs))"
    using objectKeys_distinct [OF groupByAud_distinct] .
  have m: "mset out =
                mset (concat (map (\<lambda>k. audIssues
                        (dtFromHM (if firstShowHM s \<noteq> [] then firstShowHM s else ''07:00''))
                        k (map (\<lambda>r. \<lparr>s_start = start r, s_end = endT r, s_audName = audName r\<rparr>)
                               (filter (\<lambda>r. audId r = Some k) shs)))
                      (objectKeys (groupByAud shs))))"
    unfolding out by (rule mset_sort)
  have so: "sorted (map (\<lambda>i. - i_minutes i) out)"
    unfolding out by (rule sorted_sort_key)
  have 1: "\<exists>shs. getAllShows s = Inr shs
            \<and> set (objectKeys (groupByAud shs)) = {k. k \<noteq> 0 \<and> (\<exists>r \<in> set shs. audId r = Some k)}
            \<and> distinct (objectKeys (groupByAud shs))
            \<and> mset out =
                mset (concat (map (\<lambda>k. audIssues
                        (dtFromHM (if firstShowHM s \<noteq> [] then firstShowHM s else ''07:00''))
                        k (map (\<lambda>r. \<lparr>s_start = start r, s_end = endT r, s_audName = audName r\<rparr>)
                               (filter (\<lambda>r. audId r = Some k) shs)))
                      (objectKeys (groupByAud shs))))"
    using g ks kd m by blast
  from 1 so normalizeDateForGap_rule [of t] sortedSlots_perm [of grp] audIssues_tm [of w k grp]
  show ?thesis by (intro conjI) simp_all
qed


section \<open>Worked examples\<close>

theorem buildRowShowtimes_recurrence_witness:
  "buildRowShowtimes baseState rowBlank = []
   \<and> filmById baseState (r_filmId rowR1) = Some filmA
   \<and> audById baseState (r_audId rowR1) = Some aud1
   \<and> truthyS (r_primeHM rowR1)
   \<and> 0 < cycleMinutes (filmById baseState (r_filmId rowR1))
   \<and> windowFirst baseState \<le> dtFromHM (the (r_primeHM rowR1))
   \<and> dtFromHM (the (r_primeHM rowR1)) < windowLast baseState
   \<and> map start (buildRowShowtimes baseState rowR1) = [540, 690, 840, 990, 1140, 1290]
   \<and> int (length (buildRowShowtimes baseState rowR1)) = 4 + 1 + 1"
proof -
  have blank: "r_filmId rowBlank = None" by (simp add: rowBlank_def)
  have f: "filmById baseState (r_filmId rowR1) = Some filmA" by code_simp
  have a: "audById baseState (r_audId rowR1) = Some aud1" by code_simp
  have t: "truthyS (r_primeHM rowR1)" by code_simp
  have c: "cycleMinutes (Some filmA) = 150" by code_simp
  have p: "dtFromHM (the (r_primeHM rowR1)) = 1140" by code_simp
  have w1: "windowFirst baseState = 420" by code_simp
  have w2: "windowLast baseState = 1380" by code_simp
  have st: "map start (buildRowShowtimes baseState rowR1) = [540, 690, 840, 990, 1140, 1290]"
    by code_simp
  from buildRowShowtimes_recurrence [of baseState rowBlank] blank
  have e: "buildRowShowtimes baseState rowBlank = []"
    by (simp add: Let_def)
  from buildRowShowtimes_recurrence [of baseState rowR1]
  have "int (length (buildRowShowtimes baseState rowR1)) = 4 + 1 + 1"
    by (simp add: Let_def f a t c p w1 w2)
  with e f a t c p w1 w2 st show ?thesis by simp
qed

text \<open>
  The claim C1 as stated fails for a row whose audId is present but names no auditorium:
  filmId, audId and primeHM are all there, the cycle is 150 and the prime time lies
  inside the window, yet nothing is generated.
\<close>

theorem buildRowShowtimes_dangling_aud_counterexample:
  "r_filmId rowDangling = Some ''F1''
   \<and> r_audId rowDangling = Some 9
   \<and> r_primeHM rowDangling = Some ''19:00''
   \<and> cycleMinutes (filmById baseState (r_filmId rowDangling)) = 150
   \<and> windowFirst baseState = 420
   \<and> dtFromHM ''19:00'' = 1140
   \<and> windowLast baseState = 1380
   \<and> audById baseState (r_audId rowDangling) = None
   \<and> buildRowShowtimes baseState rowDangling = []"
  by code_simp

theorem getAllShows_sorted_witness:
  "getAllShows manualState = Inr (projr (getAllShows manualState))
   \<and> map start (projr (getAllShows manualState)) = [1140, 1200]
   \<and> sorted (map start (projr (getAllShows manualState)))"
proof -
  have e: "getAllShows manualState = Inr (projr (getAllShows manualState))" by code_simp
  have v: "map start (projr (getAllShows manualState)) = [1140, 1200]"
    by code_simp
  from getAllShows_sorted [OF e] e v show ?thesis by simp
qed

theorem getAllShows_dedup_witness:
  "getAllShows dupState = Inr (projr (getAllShows dupState))
   \<and> map sid (rawShows dupState) = [''PRB-B1:0'', ''M-1-1'']
   \<and> map triple (projr (mappedShows dupState))
       = [(1140, Some 1, Some ''F1''), (1140, Some 1, Some ''F1'')]
   \<and> map sid (projr (getAllShows dupState)) = [''PRB-B1:0'']
   \<and> distinct (map triple (projr (getAllShows dupState)))"
proof -
  have e: "getAllShows dupState = Inr (projr (getAllShows dupState))" by code_simp
  have n: "map sid (rawShows dupState) = [''PRB-B1:0'', ''M-1-1'']" by code_simp
  have t: "map triple (projr (mappedShows dupState))
       = [(1140, Some 1, Some ''F1''), (1140, Some 1, Some ''F1'')]" by code_simp
  have v: "map sid (projr (getAllShows dupState)) = [''PRB-B1:0'']" by code_simp
  from getAllShows_dedup [OF e] have "distinct (map triple (projr (getAllShows dupState)))"
    by blast
  with e n t v show ?thesis by simp
qed

section \<open>Resolution and missing catalog lookups\<close>

text \<open>
  C7. Resolution is claimed never to raise when a film lookup fails. On a schedule
  whose override for the prime show carries a start time together with a film id that
  is not in the catalog, \<open>endOfMovie\<close> is handed a null film and resolution raises a
  TypeError. The two entry points updateShowFilm and updateShowStart, called one after
  the other on the prime show, produce such a schedule.
\<close>

theorem getAllShows_dangling_film_raises:
  "filmById danglingState (Some ''ZZ'') = None
   \<and> getAllShows danglingState = Inl TypeError
   \<and> getAllShows (projr (updateShowStart
         (projr (updateShowFilm narrowState ''PRB-B1:0'' (Some ''ZZ''))) ''PRB-B1:0'' ''20:00''))
       = Inl TypeError"
  by code_simp

section \<open>Worked examples: regrouping, mutations and undo\<close>

theorem override_regrouping_witness:
  "getAllShows regroupState = Inr (projr (getAllShows regroupState))
   \<and> map rowId (rawShows regroupState) = [''PRB-B1'']
   \<and> projr (getAllShows regroupState) ! 0 \<in> set (projr (getAllShows regroupState))
   \<and> sid (projr (getAllShows regroupState) ! 0) = ''PRB-B1:0''
   \<and> audId (projr (getAllShows regroupState) ! 0) = Some 2
   \<and> source (projr (getAllShows regroupState) ! 0) = Override
   \<and> rowId (projr (getAllShows regroupState) ! 0) = ''OV-2-F1''"
proof -
  have e: "getAllShows regroupState = Inr (projr (getAllShows regroupState))" by code_simp
  have m: "projr (getAllShows regroupState) ! 0 \<in> set (projr (getAllShows regroupState))"
    by code_simp
  have v: "sid (projr (getAllShows regroupState) ! 0) = ''PRB-B1:0''
     \<and> audId (projr (getAllShows regroupState) ! 0) = Some 2
     \<and> source (projr (getAllShows regroupState) ! 0) = Override
     \<and> rowId (projr (getAllShows regroupState) ! 0) = ''OV-2-F1''"
    by code_simp
  have b: "map rowId (rawShows regroupState) = [''PRB-B1'']" by code_simp
  from override_regrouping [OF e m] e m v b show ?thesis by simp
qed

text \<open>
  C3. A call that asks for the value a show already has is claimed to be a no-op that
  pushes no UndoEntry. updateShowAud and updateShowFilm are: asking for auditorium 1 or
  film F1 on the prime show, which has them, pushes nothing. updateShowStart is not:
  asking for 19:00 on the show that already starts at 19:00 pushes an UndoEntry and
  writes an override.
\<close>

theorem updateShowStart_same_time_pushes:
  "start (the (findShow ''PRB-B1:0'' (projr (getAllShows narrowState)))) = dtFromHM ''19:00''
   \<and> undoStack narrowState = []
   \<and> overrides narrowState ''PRB-B1:0'' = None
   \<and> undoStack (projr (updateShowAud narrowState ''PRB-B1:0'' (Some 1))) = []
   \<and> undoStack (projr (updateShowFilm narrowState ''PRB-B1:0'' (Some ''F1''))) = []
   \<and> undoStack (projr (updateShowStart narrowState ''PRB-B1:0'' ''19:00''))
       = [EditE ''PRB-B1:0'' 1140]
   \<and> overrides (projr (updateShowStart narrowState ''PRB-B1:0'' ''19:00'')) ''PRB-B1:0''
       = Some \<lparr>ov_start = Some 1140, ov_audId = None, ov_filmId = None\<rparr>"
  by code_simp

text \<open>
  C2. Undo is claimed to restore the resolved show list after every kind of mutation.
  Moving the manual show M-2-2 from auditorium 1 to auditorium 2 and undoing at once
  pops the one UndoEntry, but the manual record keeps auditorium 2 and an override to
  auditorium 1 is laid over it: the show now resolves under row OV-1-F1 with source
  Override instead of row PRB-B1 with source Manual.
\<close>

theorem undo_manual_move_not_restored:
  "map sid (projr (getAllShows soloState)) = [''M-2-2'']
   \<and> map rowId (projr (getAllShows soloState)) = [''PRB-B1'']
   \<and> map source (projr (getAllShows soloState)) = [Manual]
   \<and> undoStack (projr (updateShowAud soloState ''M-2-2'' (Some 2)))
     = [MoveAudE ''M-2-2'' (Some 1)]
   \<and> undoStack (projr (undo (projr (updateShowAud soloState ''M-2-2'' (Some 2))))) = []
   \<and> map audId (manualShows (projr (undo (projr (updateShowAud soloState ''M-2-2'' (Some 2))))))
     = [Some 2]
   \<and> map sid (projr (getAllShows (projr (undo (projr (updateShowAud soloState ''M-2-2'' (Some 2)))))))
     = [''M-2-2'']
   \<and> map rowId (projr (getAllShows (projr (undo (projr (updateShowAud soloState ''M-2-2'' (Some 2)))))))
     = [''OV-1-F1'']
   \<and> map source (projr (getAllShows (projr (undo (projr (updateShowAud soloState ''M-2-2'' (Some 2)))))))
     = [Override]"
  by code_simp

section \<open>Worked examples: stepping bounds\<close>

text \<open>
  The claim C9 as stated fails for the generator: with a ten-minute cycle, window 07:00 to
  23:00 and prime time 19:00, buildRowShowtimes emits 72 pre-shows (offsets -72 to -1).
\<close>

theorem generation_exceeds_fifty_counterexample:
  "cycleMinutes (filmById shortState (r_filmId rowR1)) = 10
   \<and> length (buildRowShowtimes shortState rowR1) = 97
   \<and> offset (buildRowShowtimes shortState rowR1 ! 0) = Some (- 72)
   \<and> offset (buildRowShowtimes shortState rowR1 ! 71) = Some (- 1)
   \<and> offset (buildRowShowtimes shortState rowR1 ! 72) = Some 0"
  by code_simp

section \<open>Worked examples: copying a schedule\<close>

theorem copySchedule_targets_witness:
  "truthyS (currentDate storeState)
   \<and> map_of (scheduleByDate (saveCurrentSchedule storeState)) ''2025-08-19''
       = Some (snapshotOf storeState)
   \<and> sn_undoStack (snapshotOf storeState) = [HideE ''PRB-B1:1'' False]
   \<and> map_of (scheduleByDate (copySchedule storeState None ['''', ''2025-08-20''])) ''2025-08-20''
       = Some (copiedSnapshot (snapshotOf storeState))
   \<and> sn_undoStack (copiedSnapshot (snapshotOf storeState)) = []
   \<and> sn_primeRows (copiedSnapshot (snapshotOf storeState)) = [rowR1]
   \<and> map_of (scheduleByDate (copySchedule storeState None ['''', ''2025-08-20''])) [] = None"
proof -
  have c: "currentDate storeState = Some ''2025-08-19''"
    by (simp add: storeState_def)
  have e: "scheduleByDate storeState = []"
    by (simp add: storeState_def narrowState_def baseState_def)
  have tr: "truthyS (if truthyS None then None else currentDate storeState)"
    by (simp add: c truthyS_def)
  have look: "map_of (scheduleByDate (saveCurrentSchedule storeState))
      (the (if truthyS None then None else currentDate storeState)) = Some (snapshotOf storeState)"
    by (simp add: c e truthyS_def saveCurrentSchedule_def pruneOldSchedules_def)
  have t: "''2025-08-20'' \<in> set ['''', ''2025-08-20'']" by simp
  have ne: "''2025-08-20'' \<noteq> []" by simp
  have cur: "currentDate storeState \<noteq> Some ''2025-08-20''" by (simp add: c)
  have len: "length (scheduleByDate storeState) + length ['''', ''2025-08-20''] + 2 \<le> 14"
    by (simp add: e)
  have u: "sn_undoStack (snapshotOf storeState) = [HideE ''PRB-B1:1'' False]"
    by (simp add: snapshotOf_def storeState_def)
  have r: "sn_primeRows (snapshotOf storeState) = [rowR1]"
    by (simp add: snapshotOf_def storeState_def narrowState_def baseState_def)
  from copySchedule_targets [OF tr look t ne cur] len
  have "map_of (scheduleByDate (copySchedule storeState None ['''', ''2025-08-20''])) ''2025-08-20''
       = Some (copiedSnapshot (snapshotOf storeState))
     \<and> sn_undoStack (copiedSnapshot (snapshotOf storeState)) = []
     \<and> sn_primeRows (copiedSnapshot (snapshotOf storeState)) = sn_primeRows (snapshotOf storeState)
     \<and> (\<forall>snap. map_of (scheduleByDate (copySchedule storeState None ['''', ''2025-08-20''])) []
            = Some snap \<longrightarrow> map_of (scheduleByDate storeState) [] = Some snap)"
    by blast
  moreover have "map_of (scheduleByDate storeState) [] = None" by (simp add: e)
  ultimately have "map_of (scheduleByDate (copySchedule storeState None ['''', ''2025-08-20''])) [] = None
     \<and> map_of (scheduleByDate (copySchedule storeState None ['''', ''2025-08-20''])) ''2025-08-20''
       = Some (copiedSnapshot (snapshotOf storeState))
     \<and> sn_undoStack (copiedSnapshot (snapshotOf storeState)) = []
     \<and> sn_primeRows (copiedSnapshot (snapshotOf storeState)) = sn_primeRows (snapshotOf storeState)"
    by (cases "map_of (scheduleByDate (copySchedule storeState None ['''', ''2025-08-20''])) []") auto
  with tr look u r c show ?thesis by (simp add: truthyS_def)
qed

text \<open>
  The claim C8 as stated fails under the retention policy: with fourteen dates stored,
  copying the current date to the older date 2025-01-01 writes the fifteenth key, and the
  pruning that runs when the copy is saved deletes the oldest key, the target itself.
\<close>

theorem copySchedule_pruned_counterexample:
  "map fst (scheduleByDate (saveCurrentSchedule fullState)) =
     [''2025-01-02'', ''2025-01-03'', ''2025-01-04'', ''2025-01-05'', ''2025-01-06'',
      ''2025-01-07'', ''2025-01-08'', ''2025-01-09'', ''2025-01-10'', ''2025-01-11'',
      ''2025-01-12'', ''2025-01-13'', ''2025-01-14'', ''2025-01-15'']
   \<and> map fst (scheduleByDate (copySchedule fullState (Some ''2025-01-15'') [''2025-01-01''])) =
     [''2025-01-02'', ''2025-01-03'', ''2025-01-04'', ''2025-01-05'', ''2025-01-06'',
      ''2025-01-07'', ''2025-01-08'', ''2025-01-09'', ''2025-01-10'', ''2025-01-11'',
      ''2025-01-12'', ''2025-01-13'', ''2025-01-14'', ''2025-01-15'']
   \<and> ''2025-01-01'' \<notin> set (map fst (scheduleByDate
         (copySchedule fullState (Some ''2025-01-15'') [''2025-01-01''])))"
  by code_simp


section \<open>Worked examples: downtime analyzer\<close>

theorem computeFlaggedIssues_spec_witness:
  "computeFlaggedIssues gapState = Inr (projr (computeFlaggedIssues gapState))
   \<and> map i_type (projr (computeFlaggedIssues gapState)) = [Late, Huge, Gap]
   \<and> map i_minutes (projr (computeFlaggedIssues gapState)) = [120, 100, 60]
   \<and> sorted (map (\<lambda>i. - i_minutes i) (projr (computeFlaggedIssues gapState)))
   \<and> normalizeDateForGap (dtFromHM ''23:00'') < normalizeDateForGap (dtFromHM ''00:30'')"
proof -
  have e: "computeFlaggedIssues gapState = Inr (projr (computeFlaggedIssues gapState))"
    by code_simp
  have v: "map i_type (projr (computeFlaggedIssues gapState)) = [Late, Huge, Gap]"
    by code_simp
  have m: "map i_minutes (projr (computeFlaggedIssues gapState)) = [120, 100, 60]"
    by code_simp
  have n: "normalizeDateForGap (dtFromHM ''23:00'') < normalizeDateForGap (dtFromHM ''00:30'')"
    by code_simp
  from computeFlaggedIssues_spec [OF e] e v m n show ?thesis by simp
qed


end
